theory Spec2Isabelle
  imports Complex_Main "HOL-Library.Sublist"
begin

section \<open>Data model (src/main.py, lines 26-38)\<close>

text \<open>
  A Python \<^verbatim>\<open>str\<close> is a \<^typ>\<open>string\<close>: the list of the bytes of its UTF-8 encoding, the
  empty list for \<^verbatim>\<open>""\<close>. The code compares strings for equality and tests them for
  emptiness, which the encoding keeps; what it does to the characters of a string
  (\<^verbatim>\<open>lower\<close>, \<^verbatim>\<open>strip\<close>, \<^verbatim>\<open>fuzz.ratio\<close>) is done by library functions, which are parameters
  of the model.

  A JSON object whose values are strings (\<^verbatim>\<open>Dict[str, str]\<close>) is an association list read
  with \<^const>\<open>map_of\<close>, which is \<^verbatim>\<open>d.get(key)\<close>: \<^term>\<open>None\<close> when the key is absent.
  A fingerprint is such an object with the keys \<^verbatim>\<open>type\<close> and \<^verbatim>\<open>value\<close>; an entry of
  \<^verbatim>\<open>stash_ids\<close> is one with the key \<^verbatim>\<open>stash_id\<close>.

  A file is a \<^verbatim>\<open>Dict[str, Any]\<close>. The grouping functions read only its key
  \<^verbatim>\<open>fingerprints\<close>, with \<^verbatim>\<open>file.get("fingerprints", [])\<close>; the field is \<^term>\<open>None\<close> when the
  key is absent. The other keys (size, basename, path, ...) are passed through unread and
  kept as one association list.
\<close>

type_synonym str_dict = "(string \<times> string) list"

record file_rec =
  fingerprints :: "str_dict list option"
  metadata :: str_dict

record scene =
  scene_id :: string
  title :: string
  stash_ids :: "str_dict list"
  files :: "file_rec list"

record stash_config =
  stash_endpoint :: string
  api_key :: "string option"

record stash_response =
  count :: int
  scenes :: "scene list"

text \<open>
  A \<^verbatim>\<open>Dict[str, List[Scene]]\<close> is an association list in insertion order (a Python dict
  keeps it), each key once.
\<close>

type_synonym groups = "(string \<times> scene list) list"

section \<open>Python primitives\<close>

text \<open>Truthiness of an \<^verbatim>\<open>Optional[str]\<close>: \<^verbatim>\<open>None\<close> and \<^verbatim>\<open>""\<close> are falsy.\<close>

fun truthy :: "string option \<Rightarrow> bool" where
  "truthy None = False"
| "truthy (Some s) = (s \<noteq> [])"

text \<open>
  \<^verbatim>\<open>d[k].append(v)\<close> on a \<^verbatim>\<open>defaultdict(list)\<close>: a key that is present keeps its place and
  gets \<open>v\<close> at the end of its list; a new key goes last, with the list \<open>[v]\<close>.
\<close>

fun dd_append :: "('k \<times> 'v list) list \<Rightarrow> 'k \<Rightarrow> 'v \<Rightarrow> ('k \<times> 'v list) list" where
  "dd_append [] k v = [(k, [v])]"
| "dd_append ((k', vs) # d) k v =
     (if k' = k then (k', vs @ [v]) # d else (k', vs) # dd_append d k v)"

text \<open>\<^verbatim>\<open>d[k]\<close> read on a \<^verbatim>\<open>defaultdict(list)\<close>: the empty list for a key that is absent.\<close>

definition dd_get :: "('k \<times> 'v list) list \<Rightarrow> 'k \<Rightarrow> 'v list" where
  "dd_get d k = (case map_of d k of None \<Rightarrow> [] | Some vs \<Rightarrow> vs)"

text \<open>\<^verbatim>\<open>d[k] = v\<close> on a dict: a present key is overwritten in place, a new key goes last.\<close>

fun dict_set :: "('k \<times> 'v) list \<Rightarrow> 'k \<Rightarrow> 'v \<Rightarrow> ('k \<times> 'v) list" where
  "dict_set [] k v = [(k, v)]"
| "dict_set ((k', v') # d) k v =
     (if k' = k then (k', v) # d else (k', v') # dict_set d k v)"

text \<open>
  The dict comprehension that ends three of the four functions:
  \<^verbatim>\<open>{k: scenes for k, scenes in groups.items() if len(scenes) > 1}\<close>.
\<close>

definition only_duplicates :: "('k \<times> 'v list) list \<Rightarrow> ('k \<times> 'v list) list" where
  "only_duplicates d = filter (\<lambda>(k, vs). 1 < length vs) d"

section \<open>Grouping by stash id (lines 114-125)\<close>

text \<open>
  \<^verbatim>\<open>[stash_id["stash_id"] for stash_id in scene.stash_ids if stash_id.get("stash_id")]\<close>
\<close>

definition stash_ids_of :: "scene \<Rightarrow> string list" where
  "stash_ids_of s =
     concat (map (\<lambda>d. if truthy (map_of d ''stash_id'') then [the (map_of d ''stash_id'')] else [])
       (stash_ids s))"

definition stashid_groups :: "scene list \<Rightarrow> groups" where
  "stashid_groups scs =
     fold (\<lambda>s acc.
        fold (\<lambda>stash_id acc'. if stash_id \<noteq> [] then dd_append acc' stash_id s else acc')
          (stash_ids_of s) acc)
       scs []"

definition find_duplicates_by_stashid :: "scene list \<Rightarrow> groups" where
  "find_duplicates_by_stashid scs = only_duplicates (stashid_groups scs)"

section \<open>Grouping by name with fuzzy matching (lines 127-162)\<close>

text \<open>
  \<^verbatim>\<open>str.lower()\<close> and \<^verbatim>\<open>str.strip()\<close> are built-ins of Python that work on Unicode text, with
  the case mappings and the whitespace characters of the Unicode database. They are the
  parameters \<open>lower\<close> and \<open>strip\<close> of the grouping: functions from strings to strings, of
  which nothing is assumed.

  The first loop (lines 130-134): scenes with a truthy (non-empty) title are bucketed under
  \<^verbatim>\<open>scene.title.lower().strip()\<close>.
\<close>

definition title_groups ::
  "(string \<Rightarrow> string) \<Rightarrow> (string \<Rightarrow> string) \<Rightarrow> scene list \<Rightarrow> groups" where
  "title_groups lower strip scs =
     fold (\<lambda>s acc. if title s \<noteq> [] then dd_append acc (strip (lower (title s))) s else acc)
       scs []"

text \<open>
  \<^verbatim>\<open>fuzz.ratio\<close> belongs to the library rapidfuzz, outside the repository: the grouping takes it
  as the parameter \<open>ratio\<close>, a function from two strings to a score.

  The inner loop (lines 148-156) runs over \<^verbatim>\<open>titles[i+1:]\<close>, the titles after \<open>title1\<close>; its state
  is the group being built and the set \<^verbatim>\<open>processed\<close>.
\<close>

fun inner_scan ::
  "(string \<Rightarrow> string \<Rightarrow> real) \<Rightarrow> groups \<Rightarrow> string \<Rightarrow> string list \<Rightarrow>
     scene list \<times> string set \<Rightarrow> scene list \<times> string set" where
  "inner_scan ratio tg title1 [] (grp, processed) = (grp, processed)"
| "inner_scan ratio tg title1 (title2 # ts) (grp, processed) =
     (if title2 \<in> processed then inner_scan ratio tg title1 ts (grp, processed)
      else if 85 < ratio title1 title2
        then inner_scan ratio tg title1 ts (grp @ dd_get tg title2, insert title2 processed)
        else inner_scan ratio tg title1 ts (grp, processed))"

text \<open>
  The outer loop (lines 142-160) over \<^verbatim>\<open>titles\<close>; its state is \<^verbatim>\<open>processed\<close> and
  \<^verbatim>\<open>fuzzy_groups\<close>.
\<close>

fun outer_loop ::
  "(string \<Rightarrow> string \<Rightarrow> real) \<Rightarrow> groups \<Rightarrow> string list \<Rightarrow>
     string set \<times> groups \<Rightarrow> groups" where
  "outer_loop ratio tg [] (processed, fuzzy_groups) = fuzzy_groups"
| "outer_loop ratio tg (title1 # ts) (processed, fuzzy_groups) =
     (if title1 \<in> processed then outer_loop ratio tg ts (processed, fuzzy_groups)
      else
        (case inner_scan ratio tg title1 ts (dd_get tg title1, processed) of
           (grp, processed') \<Rightarrow>
             outer_loop ratio tg ts
               (insert title1 processed',
                if 1 < length grp then dict_set fuzzy_groups title1 grp else fuzzy_groups)))"

definition find_duplicates_by_name ::
  "(string \<Rightarrow> string) \<Rightarrow> (string \<Rightarrow> string) \<Rightarrow> (string \<Rightarrow> string \<Rightarrow> real) \<Rightarrow>
     scene list \<Rightarrow> groups" where
  "find_duplicates_by_name lower strip ratio scs =
     (let tg = title_groups lower strip scs; titles = map fst tg
      in outer_loop ratio tg titles ({}, []))"

section \<open>Grouping by fingerprint (lines 164-190)\<close>

text \<open>
  \<^verbatim>\<open>find_duplicates_by_oshash\<close> and \<^verbatim>\<open>find_duplicates_by_phash\<close> are the same text but for the
  literal compared with \<^verbatim>\<open>fingerprint.get("type")\<close>; the three nested loops are written once,
  with that literal as \<open>kind\<close>.
\<close>

definition fingerprint_groups :: "string \<Rightarrow> scene list \<Rightarrow> groups" where
  "fingerprint_groups kind scs =
     fold (\<lambda>s acc.
        fold (\<lambda>file acc1.
           fold (\<lambda>fingerprint acc2.
              if map_of fingerprint ''type'' = Some kind
              then (let h = map_of fingerprint ''value''
                    in if truthy h then dd_append acc2 (the h) s else acc2)
              else acc2)
             (case fingerprints file of None \<Rightarrow> [] | Some fps \<Rightarrow> fps) acc1)
          (files s) acc)
       scs []"

definition find_duplicates_by_oshash :: "scene list \<Rightarrow> groups" where
  "find_duplicates_by_oshash scs = only_duplicates (fingerprint_groups ''oshash'' scs)"

definition find_duplicates_by_phash :: "scene list \<Rightarrow> groups" where
  "find_duplicates_by_phash scs = only_duplicates (fingerprint_groups ''phash'' scs)"

section \<open>Routes (lines 40-51, 192-263)\<close>

text \<open>
  \<^verbatim>\<open>get_config\<close>: the argument is the parsed content of \<^verbatim>\<open>config.json\<close>, \<^term>\<open>None\<close> when the
  file does not exist.
\<close>

definition get_config :: "stash_config option \<Rightarrow> stash_config" where
  "get_config file =
     (case file of
        None \<Rightarrow> \<lparr>stash_endpoint = ''http://localhost:9999/graphql'', api_key = Some []\<rparr>
      | Some config \<Rightarrow> config)"

datatype http_exception = HTTPException nat string

text \<open>
  \<^verbatim>\<open>fetch_all_scenes\<close> posts one query to \<^verbatim>\<open>config.stash_endpoint\<close>. What the remote source
  answers is the parameter \<open>upstream\<close>: the \<^verbatim>\<open>HTTPException\<close> raised or the response parsed.
  The second component of the result lists the endpoints posted to, so that a route that
  fetches differs from one that does not.
\<close>

type_synonym upstream = "stash_config \<Rightarrow> http_exception + stash_response"

definition fetch_all_scenes ::
  "upstream \<Rightarrow> stash_config \<Rightarrow> (http_exception + stash_response) \<times> string list" where
  "fetch_all_scenes up config = (up config, [stash_endpoint config])"

text \<open>What a route returns: a redirect, or one of the templates with the values it is given.\<close>

datatype response =
    RedirectResponse string
  | ErrorPage string stash_config
  | IndexPage int "scene list" stash_config
  | DuplicatesPage groups string string stash_config nat nat

definition root_page :: "upstream \<Rightarrow> stash_config option \<Rightarrow> response \<times> string list" where
  "root_page up file =
     (let config = get_config file in
      if stash_endpoint config = [] \<or> stash_endpoint config = ''http://localhost:9999/graphql''
      then (RedirectResponse ''/settings'', [])
      else
        (case fetch_all_scenes up config of
           (Inl (HTTPException code detail), posted) \<Rightarrow>
             (ErrorPage (''Error fetching data: '' @ detail) config, posted)
         | (Inr stash_data, posted) \<Rightarrow>
             (IndexPage (count stash_data) (scenes stash_data) config, posted)))"

text \<open>
  \<^verbatim>\<open>find_duplicates\<close> (lines 222-263): \<^term>\<open>Inl\<close> is the \<^verbatim>\<open>HTTPException\<close> the route raises,
  \<^term>\<open>Inr\<close> the response it returns.
\<close>

definition total_duplicate_scenes :: "groups \<Rightarrow> nat" where
  "total_duplicate_scenes duplicate_groups = sum_list (map (\<lambda>(k, scs). length scs) duplicate_groups)"

definition find_duplicates ::
  "(string \<Rightarrow> string) \<Rightarrow> (string \<Rightarrow> string) \<Rightarrow> (string \<Rightarrow> string \<Rightarrow> real) \<Rightarrow> upstream \<Rightarrow> string \<Rightarrow> stash_config option \<Rightarrow>
     (http_exception + response) \<times> string list" where
  "find_duplicates lower strip ratio up duplicate_type file =
     (let config = get_config file in
      case fetch_all_scenes up config of
        (Inl (HTTPException code detail), posted) \<Rightarrow>
          (Inr (ErrorPage (''Error fetching data: '' @ detail) config), posted)
      | (Inr stash_data, posted) \<Rightarrow>
          (let scs = scenes stash_data;
               page = (\<lambda>duplicate_groups method_name.
                 Inr (DuplicatesPage duplicate_groups method_name duplicate_type config
                        (length duplicate_groups) (total_duplicate_scenes duplicate_groups)))
           in
             (if duplicate_type = ''stashid''
                then page (find_duplicates_by_stashid scs) ''Stash ID''
              else if duplicate_type = ''name''
                then page (find_duplicates_by_name lower strip ratio scs) ''Name (Fuzzy Match)''
              else if duplicate_type = ''oshash''
                then page (find_duplicates_by_oshash scs) ''OSHASH''
              else if duplicate_type = ''phash''
                then page (find_duplicates_by_phash scs) ''PHASH''
              else Inl (HTTPException 404 ''Duplicate type not found''),
              posted)))"

section \<open>Definitions the properties are stated with\<close>

text \<open>
  Modelled from the spec: the similarity ratio of section 4.2 (rapidfuzz is a library outside
  the repository), "edit-distance-based ratio: identical strings score 100; ratio penalizes
  insertions/deletions/substitutions proportional to combined length". It is the Indel
  similarity, twice the length of a longest common subsequence over the combined length, on
  a scale of 0 to 100, in exact arithmetic. The theorems hold for every \<open>ratio\<close>; this one
  runs the model on concrete titles.
\<close>

fun lcs_length :: "'a list \<Rightarrow> 'a list \<Rightarrow> nat" where
  "lcs_length [] ys = 0"
| "lcs_length (x # xs) [] = 0"
| "lcs_length (x # xs) (y # ys) =
     (if x = y then Suc (lcs_length xs ys)
      else max (lcs_length (x # xs) ys) (lcs_length xs (y # ys)))"

definition indel_ratio :: "string \<Rightarrow> string \<Rightarrow> real" where
  "indel_ratio a b =
     (if length a + length b = 0 then 100
      else 100 * real (2 * lcs_length a b) / real (length a + length b))"

text \<open>
  Instances of the parameters \<open>lower\<close> and \<open>strip\<close>, for running the model on titles of
  ASCII characters. On such a title they are what \<^verbatim>\<open>str.lower()\<close> and \<^verbatim>\<open>str.strip()\<close> compute:
  the letters \<open>A\<close> to \<open>Z\<close> are lowered, and the characters stripped from both ends are the
  ASCII ones for which \<^verbatim>\<open>str.isspace()\<close> holds (tab, line feed, vertical tab, form feed,
  carriage return, the four separators 0x1c to 0x1f, and the space). They are not a model of
  the built-ins on other text: the theorems hold for every \<open>lower\<close> and \<open>strip\<close>, and these
  two are applied to ASCII titles only.
\<close>

definition ascii_lower_char :: "char \<Rightarrow> char" where
  "ascii_lower_char c =
     (case map_of (zip ''ABCDEFGHIJKLMNOPQRSTUVWXYZ'' ''abcdefghijklmnopqrstuvwxyz'') c of
        None \<Rightarrow> c
      | Some l \<Rightarrow> l)"

definition ascii_lower :: "string \<Rightarrow> string" where
  "ascii_lower s = map ascii_lower_char s"

definition ascii_isspace :: "char \<Rightarrow> bool" where
  "ascii_isspace c =
     (c \<in> set [CHR 0x09, CHR 0x0A, CHR 0x0B, CHR 0x0C, CHR 0x0D,
                CHR 0x1C, CHR 0x1D, CHR 0x1E, CHR 0x1F, CHR 0x20])"

definition ascii_strip :: "string \<Rightarrow> string" where
  "ascii_strip s = rev (dropWhile ascii_isspace (rev (dropWhile ascii_isspace s)))"

text \<open>
  The fuzzy merge as section 4.2 words it, on the list of titles not yet consumed: the first
  title \<open>t1\<close> seeds a group from its bucket; every later title whose ratio with \<open>t1\<close> exceeds 85
  gives its whole bucket to the group and leaves the list (it seeds nothing and is compared
  with nothing afterwards); the group is kept when it has at least two members.
\<close>

function fuzzy_merge_spec ::
  "(string \<Rightarrow> string \<Rightarrow> real) \<Rightarrow> groups \<Rightarrow> string list \<Rightarrow> groups" where
  "fuzzy_merge_spec ratio tg [] = []"
| "fuzzy_merge_spec ratio tg (t1 # ts) =
     (let merged = filter (\<lambda>t2. 85 < ratio t1 t2) ts;
          grp = dd_get tg t1 @ concat (map (dd_get tg) merged)
      in (if 1 < length grp then [(t1, grp)] else []) @
         fuzzy_merge_spec ratio tg (filter (\<lambda>t2. \<not> 85 < ratio t1 t2) ts))"
  by pat_completeness auto
termination
  by (relation "measure (\<lambda>(ratio, tg, ts). length ts)") (auto simp: less_Suc_eq_le)

text \<open>
  \<open>in_source_order src g\<close>: the members of \<open>g\<close> can be read off \<open>src\<close> from left to right, a
  position of \<open>src\<close> being read any number of times (a scene is appended once per identifier
  or fingerprint that hits). Each member is looked for from the position of the one before;
  by lemma \<open>in_source_order_indices\<close> this finds the members exactly when \<open>g\<close> is \<open>src\<close> read
  at some ascending list of positions.
\<close>

fun in_source_order :: "'a list \<Rightarrow> 'a list \<Rightarrow> bool" where
  "in_source_order src [] = True"
| "in_source_order src (x # g) =
     (case dropWhile (\<lambda>s. s \<noteq> x) src of
        [] \<Rightarrow> False
      | rest \<Rightarrow> in_source_order rest g)"

text \<open>The fingerprints of all the files of a scene, in the order the loops visit them.\<close>

definition file_fingerprints :: "scene \<Rightarrow> str_dict list" where
  "file_fingerprints s =
     concat (map (\<lambda>file. case fingerprints file of None \<Rightarrow> [] | Some fps \<Rightarrow> fps) (files s))"

text \<open>The number of fingerprints of a scene that have the kind \<open>kind\<close> and the value \<open>v\<close>.\<close>

definition fingerprint_hits :: "string \<Rightarrow> string \<Rightarrow> scene \<Rightarrow> nat" where
  "fingerprint_hits kind v s =
     length (filter (\<lambda>fp. map_of fp ''type'' = Some kind \<and> map_of fp ''value'' = Some v)
       (file_fingerprints s))"

text \<open>
  The values under which the fingerprint loops append a scene: one per fingerprint of the
  kind whose value is truthy.
\<close>

definition fingerprint_values :: "string \<Rightarrow> scene \<Rightarrow> string list" where
  "fingerprint_values kind s =
     concat (map (\<lambda>fp. if map_of fp ''type'' = Some kind \<and> truthy (map_of fp ''value'')
                        then [the (map_of fp ''value'')] else [])
       (file_fingerprints s))"

text \<open>The key under which the first loop of the name grouping appends a scene, if any.\<close>

definition title_keys :: "(string \<Rightarrow> string) \<Rightarrow> (string \<Rightarrow> string) \<Rightarrow> scene \<Rightarrow> string list" where
  "title_keys lower strip s = (if title s \<noteq> [] then [strip (lower (title s))] else [])"

text \<open>
  The three accumulation loops as one fold: each scene \<open>s\<close> is appended under the keys
  \<open>f s\<close>, in order. \<open>bucket kvs k\<close> is what the entries \<open>kvs\<close> put under the key \<open>k\<close>.
\<close>

definition dd_extend :: "('k \<times> 'v list) list \<Rightarrow> ('k \<times> 'v) list \<Rightarrow> ('k \<times> 'v list) list" where
  "dd_extend d kvs = fold (\<lambda>(k, v) acc. dd_append acc k v) kvs d"

definition keyed_entries :: "('s \<Rightarrow> 'k list) \<Rightarrow> 's list \<Rightarrow> ('k \<times> 's) list" where
  "keyed_entries f scs = concat (map (\<lambda>s. map (\<lambda>k. (k, s)) (f s)) scs)"

definition bucket :: "('k \<times> 'v) list \<Rightarrow> 'k \<Rightarrow> 'v list" where
  "bucket kvs k = map snd (filter (\<lambda>(k', v). k' = k) kvs)"

text \<open>Scenes the properties are run on.\<close>

definition ex_file :: "string \<Rightarrow> string \<Rightarrow> file_rec" where
  "ex_file kind v = \<lparr>fingerprints = Some [[(''type'', kind), (''value'', v)]], metadata = []\<rparr>"

definition ex_scene :: "string \<Rightarrow> string \<Rightarrow> string list \<Rightarrow> file_rec list \<Rightarrow> scene" where
  "ex_scene i t ids fs =
     \<lparr>scene_id = i, title = t, stash_ids = map (\<lambda>x. [(''stash_id'', x)]) ids, files = fs\<rparr>"

definition ex_twice :: scene where
  "ex_twice = ex_scene ''7'' ''Solo'' [''st-7'', ''st-7''] []"

definition ex_plain :: scene where
  "ex_plain = ex_scene ''8'' ''Other'' [''st-8''] []"

definition ex_two_files :: scene where
  "ex_two_files = ex_scene ''9'' ''Two files'' []
     [\<lparr>fingerprints = Some [[(''type'', ''oshash''), (''value'', ''xyz'')],
                             [(''type'', ''phash''), (''value'', ''xyz'')]], metadata = [(''basename'', ''a.mp4'')]\<rparr>,
      \<lparr>fingerprints = Some [[(''type'', ''oshash''), (''value'', ''xyz'')],
                             [(''type'', ''phash''), (''value'', ''xyz'')]], metadata = [(''basename'', ''b.mp4'')]\<rparr>]"

definition ex_a :: scene where
  "ex_a = ex_scene ''1'' ''Summer Vacation 2020'' [''st-99'']
     [ex_file ''oshash'' ''abc123'', ex_file ''phash'' ''f0f0'']"

definition ex_b :: scene where
  "ex_b = ex_scene ''2'' ''Summer Vacation 2021'' [''st-99'']
     [ex_file ''oshash'' ''abc123'', ex_file ''phash'' ''f0f0'']"

definition ex_c :: scene where
  "ex_c = ex_scene ''3'' '' summer vacation 2020'' [] []"

definition ex_no_value :: scene where
  "ex_no_value = ex_scene ''4'' ''No value'' []
     [ex_file ''oshash'' [], ex_file ''phash'' [],
      \<lparr>fingerprints = Some [[(''type'', ''oshash'')], [(''type'', ''phash'')]], metadata = []\<rparr>,
      \<lparr>fingerprints = None, metadata = []\<rparr>]"

definition ex_upstream :: upstream where
  "ex_upstream config = Inr \<lparr>count = 3, scenes = [ex_a, ex_c, ex_b]\<rparr>"

definition ex_placeholder :: stash_config where
  "ex_placeholder = \<lparr>stash_endpoint = ''http://localhost:9999/graphql'', api_key = Some ''secret''\<rparr>"

definition ex_unreachable :: upstream where
  "ex_unreachable config = Inl (HTTPException 500 ''Failed to connect to Stash: connection refused'')"

definition ex_configured :: stash_config where
  "ex_configured = \<lparr>stash_endpoint = ''http://stash.local:9999/graphql'', api_key = None\<rparr>"

definition ex_untitled :: scene where
  "ex_untitled = ex_scene ''5'' [] [''''] []"

definition ex_blank1 :: scene where
  "ex_blank1 = ex_scene ''10'' '' '' ['' ''] []"

definition ex_blank2 :: scene where
  "ex_blank2 = ex_scene ''11'' ''   '' ['' ''] []"

definition ex_both :: scene where
  "ex_both = ex_scene ''12'' ''Both'' [''st-99'', ''ST-99'', ''st-100''] []"

definition ex_upper :: scene where
  "ex_upper = \<lparr>scene_id = ''13'', title = ''Upper'',
     stash_ids = [[(''stash_id'', ''ST-99'')], [(''stash_id'', [])], [(''endpoint'', ''https://stashdb.org'')],
                  [(''stash_id'', ''st-100'')]],
     files = []\<rparr>"

section \<open>Dictionaries built by appending\<close>

lemma map_of_dd_append:
  "map_of (dd_append d k v) k' = (if k' = k then Some (dd_get d k @ [v]) else map_of d k')"
  by (induction d) (auto simp: dd_get_def)

lemma dd_get_dd_append:
  "dd_get (dd_append d k v) k' = (if k' = k then dd_get d k @ [v] else dd_get d k')"
  by (simp add: dd_get_def map_of_dd_append)

lemma keys_dd_append:
  "map fst (dd_append d k v) = (if k \<in> fst ` set d then map fst d else map fst d @ [k])"
  by (induction d) force+

lemma distinct_dd_append:
  "distinct (map fst d) \<Longrightarrow> distinct (map fst (dd_append d k v))"
  by (simp add: keys_dd_append)

lemma dd_extend_Nil [simp]: "dd_extend d [] = d"
  by (simp add: dd_extend_def)

lemma dd_extend_Cons [simp]: "dd_extend d ((k, v) # kvs) = dd_extend (dd_append d k v) kvs"
  by (simp add: dd_extend_def)

lemma dd_extend_append: "dd_extend d (xs @ ys) = dd_extend (dd_extend d xs) ys"
  by (simp add: dd_extend_def)

lemma dd_get_Nil [simp]: "dd_get [] k = []"
  by (simp add: dd_get_def)

lemma dd_get_dd_extend: "dd_get (dd_extend d kvs) k = dd_get d k @ bucket kvs k"
  by (induction kvs arbitrary: d) (auto simp: dd_get_dd_append bucket_def)

lemma distinct_dd_extend: "distinct (map fst d) \<Longrightarrow> distinct (map fst (dd_extend d kvs))"
  by (induction kvs arbitrary: d) (auto simp: distinct_dd_append)

lemma remdups_later_again: "x \<in> set zs \<Longrightarrow> remdups (ys @ x # zs) = remdups (ys @ zs)"
  by (induction ys) auto

lemma keys_dd_extend_order:
  "distinct (map fst d) \<Longrightarrow>
   map fst (dd_extend d kvs) = rev (remdups (rev (map fst d @ map fst kvs)))"
proof (induction kvs arbitrary: d)
  case Nil
  then show ?case by (simp add: distinct_remdups_id)
next
  case (Cons a kvs)
  obtain k v where a: "a = (k, v)" by (cases a)
  have d': "distinct (map fst (dd_append d k v))" using Cons.prems by (rule distinct_dd_append)
  show ?case
  proof (cases "k \<in> fst ` set d")
    case True
    then have "k \<in> set (rev (map fst d))" by simp
    then have "remdups (rev (map fst kvs) @ k # rev (map fst d)) =
               remdups (rev (map fst kvs) @ rev (map fst d))"
      by (rule remdups_later_again)
    with True show ?thesis
      unfolding a dd_extend_Cons Cons.IH [OF d'] keys_dd_append by simp
  next
    case False
    then show ?thesis
      unfolding a dd_extend_Cons Cons.IH [OF d'] keys_dd_append by simp
  qed
qed

lemma set_keys_dd_append: "fst ` set (dd_append d k v) = insert k (fst ` set d)"
  using arg_cong [OF keys_dd_append [of d k v], of set] by (auto split: if_splits)

lemma keys_dd_extend: "fst ` set (dd_extend d kvs) = fst ` set d \<union> fst ` set kvs"
proof (induction kvs arbitrary: d)
  case Nil
  then show ?case by simp
next
  case (Cons a kvs)
  obtain k v where a: "a = (k, v)" by (cases a)
  show ?case unfolding a dd_extend_Cons Cons.IH set_keys_dd_append by auto
qed

lemma map_of_dd_extend_Nil:
  "map_of (dd_extend [] kvs) k = (if k \<in> fst ` set kvs then Some (bucket kvs k) else None)"
proof (cases "k \<in> fst ` set kvs")
  case True
  then have "k \<in> fst ` set (dd_extend [] kvs)" by (simp add: keys_dd_extend)
  then obtain vs where vs: "map_of (dd_extend [] kvs) k = Some vs"
    by (metis map_of_eq_None_iff not_Some_eq)
  then have "dd_get (dd_extend [] kvs) k = vs" by (simp add: dd_get_def)
  then have "vs = bucket kvs k" by (simp add: dd_get_dd_extend)
  with vs True show ?thesis by simp
next
  case False
  then have "k \<notin> fst ` set (dd_extend [] kvs)" by (simp add: keys_dd_extend)
  then have "map_of (dd_extend [] kvs) k = None" by (simp add: map_of_eq_None_iff)
  with False show ?thesis by simp
qed

lemma bucket_nonempty_iff: "bucket kvs k \<noteq> [] \<longleftrightarrow> k \<in> fst ` set kvs"
  by (induction kvs) (auto simp: bucket_def)

lemma fold_dd_extend:
  "fold (\<lambda>s acc. dd_extend acc (f s)) scs d = dd_extend d (concat (map f scs))"
  by (induction scs arbitrary: d) (auto simp: dd_extend_append)

lemma map_of_filter_distinct:
  "distinct (map fst d) \<Longrightarrow>
   map_of (filter (\<lambda>(k, v). P v) d) k =
     (case map_of d k of None \<Rightarrow> None | Some v \<Rightarrow> if P v then Some v else None)"
proof (induction d)
  case Nil
  then show ?case by simp
next
  case (Cons a d)
  obtain k' v' where a: "a = (k', v')" by (cases a)
  from Cons.prems a have notin: "k' \<notin> fst ` set d" and dist: "distinct (map fst d)" by auto
  from notin have none: "map_of d k' = None" by (simp add: map_of_eq_None_iff)
  have none': "map_of (filter (\<lambda>(k, v). P v) d) k' = None"
    using notin by (auto simp: map_of_eq_None_iff)
  show ?case using Cons.IH [OF dist] a none none' by (auto split: option.splits)
qed

lemma map_of_only_duplicates:
  "distinct (map fst d) \<Longrightarrow>
   map_of (only_duplicates d) k =
     (case map_of d k of None \<Rightarrow> None | Some vs \<Rightarrow> if 1 < length vs then Some vs else None)"
  unfolding only_duplicates_def by (rule map_of_filter_distinct)

lemma set_only_duplicates:
  "set (only_duplicates d) = {(k, vs). (k, vs) \<in> set d \<and> 1 < length vs}"
  by (auto simp: only_duplicates_def)

lemma distinct_only_duplicates:
  "distinct (map fst d) \<Longrightarrow> distinct (map fst (only_duplicates d))"
  by (simp add: only_duplicates_def distinct_map_filter)

lemma in_dd_extend_Nil_iff:
  "(k, vs) \<in> set (dd_extend [] kvs) \<longleftrightarrow> k \<in> fst ` set kvs \<and> vs = bucket kvs k"
proof -
  have d: "distinct (map fst (dd_extend [] kvs))"
    by (rule distinct_dd_extend) simp
  have "(k, vs) \<in> set (dd_extend [] kvs) \<longleftrightarrow> map_of (dd_extend [] kvs) k = Some vs"
    using d by simp
  then show ?thesis by (auto simp: map_of_dd_extend_Nil)
qed

section \<open>The accumulation loops\<close>

lemma stash_ids_of_nonempty: "i \<in> set (stash_ids_of s) \<Longrightarrow> i \<noteq> []"
  by (auto simp: stash_ids_of_def split: if_splits option.splits elim!: truthy.elims)

lemma fingerprint_values_nonempty: "v \<in> set (fingerprint_values kind s) \<Longrightarrow> v \<noteq> []"
  by (auto simp: fingerprint_values_def split: if_splits option.splits elim!: truthy.elims)

lemma stashid_inner:
  "\<forall>i \<in> set ids. i \<noteq> [] \<Longrightarrow>
   fold (\<lambda>stash_id acc'. if stash_id \<noteq> [] then dd_append acc' stash_id s else acc') ids acc =
     dd_extend acc (map (\<lambda>i. (i, s)) ids)"
  by (induction ids arbitrary: acc) auto

lemma stashid_groups_entries: "stashid_groups scs = dd_extend [] (keyed_entries stash_ids_of scs)"
proof -
  have "\<And>s acc. fold (\<lambda>stash_id acc'. if stash_id \<noteq> [] then dd_append acc' stash_id s else acc')
           (stash_ids_of s) acc = dd_extend acc (map (\<lambda>i. (i, s)) (stash_ids_of s))"
    by (rule stashid_inner) (simp add: stash_ids_of_nonempty)
  then show ?thesis
    by (simp add: stashid_groups_def keyed_entries_def fold_dd_extend)
qed

lemma title_groups_entries: "title_groups lower strip scs = dd_extend [] (keyed_entries (title_keys lower strip) scs)"
proof -
  have "\<And>s acc. (if title s \<noteq> [] then dd_append acc (strip (lower (title s))) s else acc) =
          dd_extend acc (map (\<lambda>k. (k, s)) (title_keys lower strip s))"
    by (simp add: title_keys_def)
  then show ?thesis
    by (simp add: title_groups_def keyed_entries_def fold_dd_extend)
qed

lemma fingerprint_inner:
  "fold (\<lambda>fingerprint acc2.
      if map_of fingerprint ''type'' = Some kind
      then (let h = map_of fingerprint ''value''
            in if truthy h then dd_append acc2 (the h) s else acc2)
      else acc2) fps acc =
   dd_extend acc (map (\<lambda>v. (v, s))
     (concat (map (\<lambda>fp. if map_of fp ''type'' = Some kind \<and> truthy (map_of fp ''value'')
                        then [the (map_of fp ''value'')] else []) fps)))"
  by (induction fps arbitrary: acc) (auto simp: Let_def)

lemma fingerprint_files:
  "fold (\<lambda>file acc1. dd_extend acc1 (map (\<lambda>v. (v, s)) (g file))) fs acc =
   dd_extend acc (map (\<lambda>v. (v, s)) (concat (map g fs)))"
  by (induction fs arbitrary: acc) (auto simp: dd_extend_append)

lemma concat_map_concat:
  "concat (map f (concat xss)) = concat (map (\<lambda>xs. concat (map f xs)) xss)"
  by (induction xss) auto

lemma fingerprint_groups_entries:
  "fingerprint_groups kind scs = dd_extend [] (keyed_entries (fingerprint_values kind) scs)"
proof -
  let ?sel = "\<lambda>fp. if map_of fp ''type'' = Some kind \<and> truthy (map_of fp ''value'')
                    then [the (map_of fp ''value'')] else []"
  let ?fps = "\<lambda>file. case fingerprints file of None \<Rightarrow> [] | Some fps \<Rightarrow> fps"
  have vals: "\<And>s. fingerprint_values kind s = concat (map (\<lambda>file. concat (map ?sel (?fps file))) (files s))"
    by (simp add: fingerprint_values_def file_fingerprints_def concat_map_concat comp_def)
  show ?thesis
    unfolding fingerprint_groups_def fingerprint_inner fingerprint_files keyed_entries_def
      fold_dd_extend vals ..
qed

lemma bucket_keyed_entries:
  "bucket (keyed_entries f scs) k = concat (map (\<lambda>s. replicate (count_list (f s) k) s) scs)"
proof -
  have one: "\<And>s ks. map snd (filter (\<lambda>(k', v). k' = k) (map (\<lambda>k. (k, s)) ks)) = replicate (count_list ks k) s"
    subgoal for s ks by (induction ks) auto
    done
  show ?thesis
    by (induction scs) (auto simp: bucket_def keyed_entries_def one)
qed

lemma keys_keyed_entries: "fst ` set (keyed_entries f scs) = (\<Union>s \<in> set scs. set (f s))"
  by (auto simp: keyed_entries_def image_iff)

lemma count_fingerprint_values:
  "count_list (fingerprint_values kind s) v = (if v = [] then 0 else fingerprint_hits kind v s)"
proof -
  have "\<And>fps. count_list (concat (map (\<lambda>fp. if map_of fp ''type'' = Some kind \<and> truthy (map_of fp ''value'')
                        then [the (map_of fp ''value'')] else []) fps)) v =
     (if v = [] then 0 else length (filter (\<lambda>fp. map_of fp ''type'' = Some kind \<and> map_of fp ''value'' = Some v) fps))"
    subgoal for fps
      by (induction fps) (auto elim!: truthy.elims)
    done
  then show ?thesis
    by (simp add: fingerprint_values_def fingerprint_hits_def file_fingerprints_def)
qed

section \<open>The fuzzy merge\<close>

lemma dict_set_new: "k \<notin> fst ` set d \<Longrightarrow> dict_set d k v = d @ [(k, v)]"
  by (induction d) auto

lemma inner_scan_filter:
  "distinct ts \<Longrightarrow>
   inner_scan ratio tg t1 ts (grp, processed) =
     (grp @ concat (map (dd_get tg) (filter (\<lambda>t2. t2 \<notin> processed \<and> 85 < ratio t1 t2) ts)),
      processed \<union> set (filter (\<lambda>t2. t2 \<notin> processed \<and> 85 < ratio t1 t2) ts))"
proof (induction ts arbitrary: grp processed)
  case Nil
  then show ?case by simp
next
  case (Cons t2 ts)
  from Cons.prems have notin: "t2 \<notin> set ts" and dist: "distinct ts" by auto
  have same: "filter (\<lambda>t. t \<notin> insert t2 processed \<and> 85 < ratio t1 t) ts =
              filter (\<lambda>t. t \<notin> processed \<and> 85 < ratio t1 t) ts"
    using notin by (intro filter_cong) auto
  show ?case
    using Cons.IH [OF dist] same by auto
qed

lemma outer_loop_spec:
  "distinct ts \<Longrightarrow> fst ` set fg \<subseteq> processed \<Longrightarrow>
   outer_loop ratio tg ts (processed, fg) =
     fg @ fuzzy_merge_spec ratio tg (filter (\<lambda>t. t \<notin> processed) ts)"
proof (induction ts arbitrary: processed fg)
  case Nil
  then show ?case by simp
next
  case (Cons t1 ts)
  from Cons.prems have notin: "t1 \<notin> set ts" and dist: "distinct ts" by auto
  show ?case
  proof (cases "t1 \<in> processed")
    case True
    then show ?thesis using Cons.IH [OF dist Cons.prems(2)] by simp
  next
    case False
    define merged where "merged = filter (\<lambda>t2. t2 \<notin> processed \<and> 85 < ratio t1 t2) ts"
    define grp where "grp = dd_get tg t1 @ concat (map (dd_get tg) merged)"
    define fg' where "fg' = (if 1 < length grp then fg @ [(t1, grp)] else fg)"
    have scan: "inner_scan ratio tg t1 ts (dd_get tg t1, processed) = (grp, processed \<union> set merged)"
      by (simp add: inner_scan_filter [OF dist] grp_def merged_def)
    have new: "t1 \<notin> fst ` set fg" using False Cons.prems(2) by auto
    have keys: "fst ` set fg' \<subseteq> insert t1 (processed \<union> set merged)"
      using Cons.prems(2) by (auto simp: fg'_def)
    have step: "outer_loop ratio tg (t1 # ts) (processed, fg) =
                outer_loop ratio tg ts (insert t1 (processed \<union> set merged), fg')"
      using False scan by (simp add: fg'_def dict_set_new [OF new])
    have m: "filter (\<lambda>t2. 85 < ratio t1 t2) (filter (\<lambda>t. t \<notin> processed) ts) = merged"
      by (simp add: merged_def conj_commute)
    have rest: "filter (\<lambda>t. t \<notin> insert t1 (processed \<union> set merged)) ts =
                filter (\<lambda>t2. \<not> 85 < ratio t1 t2) (filter (\<lambda>t. t \<notin> processed) ts)"
      unfolding filter_filter using notin by (intro filter_cong) (auto simp: merged_def)
    have "outer_loop ratio tg (t1 # ts) (processed, fg) =
          fg' @ fuzzy_merge_spec ratio tg (filter (\<lambda>t. t \<notin> insert t1 (processed \<union> set merged)) ts)"
      unfolding step by (rule Cons.IH [OF dist keys])
    also have "\<dots> = fg @ (if 1 < length grp then [(t1, grp)] else []) @
                 fuzzy_merge_spec ratio tg
                   (filter (\<lambda>t2. \<not> 85 < ratio t1 t2) (filter (\<lambda>t. t \<notin> processed) ts))"
      unfolding rest by (simp add: fg'_def)
    also have "\<dots> = fg @ fuzzy_merge_spec ratio tg (t1 # filter (\<lambda>t. t \<notin> processed) ts)"
      by (subst fuzzy_merge_spec.simps(2)) (simp only: Let_def m grp_def)
    also have "\<dots> = fg @ fuzzy_merge_spec ratio tg (filter (\<lambda>t. t \<notin> processed) (t1 # ts))"
      using False by simp
    finally show ?thesis .
  qed
qed

lemma distinct_title_groups: "distinct (map fst (title_groups lower strip scs))"
  unfolding title_groups_entries by (rule distinct_dd_extend) simp

lemma title_groups_key_order:
  "map fst (title_groups lower strip scs) =
     rev (remdups (rev (map (\<lambda>s. strip (lower (title s))) (filter (\<lambda>s. title s \<noteq> []) scs))))"
proof -
  have "map fst (keyed_entries (title_keys lower strip) scs) =
        map (\<lambda>s. strip (lower (title s))) (filter (\<lambda>s. title s \<noteq> []) scs)"
    by (induction scs) (auto simp: keyed_entries_def title_keys_def)
  then show ?thesis
    unfolding title_groups_entries using keys_dd_extend_order [of "[]" "keyed_entries (title_keys lower strip) scs"]
    by simp
qed

lemma find_duplicates_by_name_spec:
  "find_duplicates_by_name lower strip ratio scs =
     fuzzy_merge_spec ratio (title_groups lower strip scs) (map fst (title_groups lower strip scs))"
  using outer_loop_spec [where ts = "map fst (title_groups lower strip scs)" and fg = "[]"
      and processed = "{}" and ratio = ratio and tg = "title_groups lower strip scs",
      OF distinct_title_groups]
  by (simp add: find_duplicates_by_name_def Let_def)

lemma fuzzy_merge_spec_sizes:
  "(k, g) \<in> set (fuzzy_merge_spec ratio tg ts) \<Longrightarrow> 1 < length g"
  by (induction ratio tg ts rule: fuzzy_merge_spec.induct) (auto simp: Let_def split: if_splits)

lemma fuzzy_merge_spec_groups:
  "(k, g) \<in> set (fuzzy_merge_spec ratio tg ts) \<Longrightarrow>
   \<exists>ms. subseq (k # ms) ts \<and> g = concat (map (dd_get tg) (k # ms)) \<and>
        (\<forall>t2 \<in> set ms. 85 < ratio k t2)"
proof (induction ratio tg ts rule: fuzzy_merge_spec.induct)
  case (1 ratio tg)
  then show ?case by simp
next
  case (2 ratio tg t1 ts)
  let ?merged = "filter (\<lambda>t2. 85 < ratio t1 t2) ts"
  let ?rest = "filter (\<lambda>t2. \<not> 85 < ratio t1 t2) ts"
  from "2.prems" consider
      (seed) "k = t1" "g = dd_get tg t1 @ concat (map (dd_get tg) ?merged)"
    | (later) "(k, g) \<in> set (fuzzy_merge_spec ratio tg ?rest)"
    by (auto simp: Let_def split: if_splits)
  then show ?case
  proof cases
    case seed
    have "subseq (t1 # ?merged) (t1 # ts)" by simp
    with seed show ?thesis by (intro exI [of _ ?merged]) auto
  next
    case later
    from "2.IH" [OF refl refl later] obtain ms where
      ms: "subseq (k # ms) ?rest" "g = concat (map (dd_get tg) (k # ms))" "\<forall>t2 \<in> set ms. 85 < ratio k t2"
      by blast
    have "subseq ?rest (t1 # ts)" by (rule list_emb_Cons) simp
    with ms(1) have "subseq (k # ms) (t1 # ts)" by (rule subseq_order.trans)
    with ms show ?thesis by blast
  qed
qed

lemma in_source_order_prepend:
  "in_source_order ys g \<Longrightarrow> in_source_order (pre @ ys) g"
proof (induction g arbitrary: ys pre)
  case Nil
  then show ?case by simp
next
  case (Cons x g)
  let ?P = "\<lambda>s. s \<noteq> x"
  from Cons.prems obtain r rs where r: "dropWhile ?P ys = r # rs" and g: "in_source_order (r # rs) g"
    by (auto split: list.splits)
  have ys: "ys = takeWhile ?P ys @ r # rs" using r by (metis takeWhile_dropWhile_id)
  show ?case
  proof (cases "\<forall>p \<in> set pre. ?P p")
    case True
    then have "dropWhile ?P (pre @ ys) = r # rs" using r by (simp add: dropWhile_append2)
    with g show ?thesis by simp
  next
    case False
    then have ne: "dropWhile ?P pre \<noteq> []" by (simp add: dropWhile_eq_Nil_conv)
    have dw: "dropWhile ?P (pre @ ys) = dropWhile ?P pre @ ys"
      using False by (auto simp: dropWhile_append1)
    have "dropWhile ?P pre @ ys = (dropWhile ?P pre @ takeWhile ?P ys) @ r # rs"
      using ys by simp
    moreover have "in_source_order ((dropWhile ?P pre @ takeWhile ?P ys) @ r # rs) g"
      by (rule Cons.IH [OF g])
    ultimately have "in_source_order (dropWhile ?P pre @ ys) g" by simp
    with ne dw show ?thesis by (auto split: list.splits)
  qed
qed

lemma in_source_order_replicate:
  "in_source_order (s # ss) (replicate n s @ g) = in_source_order (s # ss) g"
  by (induction n) auto

lemma in_source_order_repeats:
  "in_source_order scs (concat (map (\<lambda>s. replicate (n s) s) scs))"
proof (induction scs)
  case Nil
  then show ?case by simp
next
  case (Cons s scs)
  have "in_source_order ([s] @ scs) (concat (map (\<lambda>s. replicate (n s) s) scs))"
    by (rule in_source_order_prepend [OF Cons.IH])
  then show ?case by (simp add: in_source_order_replicate)
qed

section \<open>What a grouping returns under a key\<close>

lemma map_of_grouped:
  "map_of (only_duplicates (dd_extend [] (keyed_entries f scs))) k =
     (let b = concat (map (\<lambda>s. replicate (count_list (f s) k) s) scs)
      in if 1 < length b then Some b else None)"
proof -
  let ?E = "keyed_entries f scs"
  have d: "distinct (map fst (dd_extend [] ?E))" by (rule distinct_dd_extend) simp
  have b: "concat (map (\<lambda>s. replicate (count_list (f s) k) s) scs) = bucket ?E k"
    by (simp add: bucket_keyed_entries)
  show ?thesis
  proof (cases "k \<in> fst ` set ?E")
    case True
    then show ?thesis
      unfolding map_of_only_duplicates [OF d] map_of_dd_extend_Nil b by (simp add: Let_def)
  next
    case False
    then have "bucket ?E k = []" using bucket_nonempty_iff [of ?E k] by blast
    with False show ?thesis
      unfolding map_of_only_duplicates [OF d] map_of_dd_extend_Nil b by (simp add: Let_def)
  qed
qed

lemma in_grouped_iff:
  "(k, g) \<in> set (only_duplicates (dd_extend [] (keyed_entries f scs))) \<longleftrightarrow>
     g = concat (map (\<lambda>s. replicate (count_list (f s) k) s) scs) \<and> 1 < length g"
proof -
  let ?d = "only_duplicates (dd_extend [] (keyed_entries f scs))"
  have "distinct (map fst ?d)"
    by (intro distinct_only_duplicates distinct_dd_extend) simp
  then have "(k, g) \<in> set ?d \<longleftrightarrow> map_of ?d k = Some g" by simp
  then show ?thesis unfolding map_of_grouped by (auto simp: Let_def)
qed

lemma concat_replicate_0: "\<forall>s \<in> set xs. n s = 0 \<Longrightarrow> concat (map (\<lambda>s. replicate (n s) s) xs) = []"
  by (induction xs) auto

lemma member_repeats_iff:
  "s \<in> set (concat (map (\<lambda>s. replicate (n s) s) scs)) \<longleftrightarrow> s \<in> set scs \<and> 0 < n s"
  by (induction scs) auto

lemma lone_double_entry:
  assumes "n s = 2" and "\<forall>s' \<in> set before \<union> set after. n s' = 0"
  shows "concat (map (\<lambda>s. replicate (n s) s) (before @ s # after)) = [s, s]"
proof -
  have b: "concat (map (\<lambda>s. replicate (n s) s) before) = []"
    using assms(2) by (intro concat_replicate_0) simp
  have a: "concat (map (\<lambda>s. replicate (n s) s) after) = []"
    using assms(2) by (intro concat_replicate_0) simp
  have r: "replicate (n s) s = [s, s]" using assms(1) by (simp add: numeral_2_eq_2)
  show ?thesis
    unfolding map_append concat_append list.map concat.simps a b r by simp
qed

lemma count_stash_ids_of:
  "count_list (stash_ids_of s) i =
     (if i = [] then 0 else count_list (map (\<lambda>d. map_of d ''stash_id'') (stash_ids s)) (Some i))"
proof -
  have "\<And>ds. count_list (concat (map (\<lambda>d. if truthy (map_of d ''stash_id'')
            then [the (map_of d ''stash_id'')] else []) ds)) i =
          (if i = [] then 0 else count_list (map (\<lambda>d. map_of d ''stash_id'') ds) (Some i))"
    subgoal for ds by (induction ds) (auto elim!: truthy.elims)
    done
  then show ?thesis by (simp add: stash_ids_of_def)
qed

section \<open>Multiplicity of entries\<close>

text \<open>
  Claim C9. In identifier grouping, a scene whose list of external identifiers holds the same
  non-empty identifier \<open>i\<close> twice is appended twice to the bucket of \<open>i\<close>: when no other scene
  of the list carries \<open>i\<close>, the group returned under \<open>i\<close> is that scene twice. The size test
  counts entries, not distinct scenes.
\<close>

theorem stashid_repeated_in_one_scene:
  assumes "i \<noteq> []"
    and "count_list (map (\<lambda>d. map_of d ''stash_id'') (stash_ids s)) (Some i) = 2"
    and "\<forall>s' \<in> set before \<union> set after. Some i \<notin> set (map (\<lambda>d. map_of d ''stash_id'') (stash_ids s'))"
  shows "map_of (find_duplicates_by_stashid (before @ s # after)) i = Some [s, s]"
proof -
  have two: "count_list (stash_ids_of s) i = 2"
    using assms(1,2) by (simp add: count_stash_ids_of)
  have none: "\<forall>s' \<in> set before \<union> set after. count_list (stash_ids_of s') i = 0"
    using assms(1,3) by (simp add: count_stash_ids_of count_list_0_iff)
  show ?thesis
    unfolding find_duplicates_by_stashid_def stashid_groups_entries map_of_grouped
      lone_double_entry [where n = "\<lambda>s. count_list (stash_ids_of s) i", OF two none]
    by simp
qed

theorem stashid_repeated_in_one_scene_witness:
  "map_of (find_duplicates_by_stashid [ex_plain, ex_twice]) ''st-7'' = Some [ex_twice, ex_twice]
   \<and> find_duplicates_by_stashid [ex_plain, ex_twice] = [(''st-7'', [ex_twice, ex_twice])]"
proof -
  have a: "''st-7'' \<noteq> []" by simp
  have b: "count_list (map (\<lambda>d. map_of d ''stash_id'') (stash_ids ex_twice)) (Some ''st-7'') = 2"
    by (simp add: ex_twice_def ex_scene_def)
  have c: "\<forall>s' \<in> set [ex_plain] \<union> set []. Some ''st-7'' \<notin> set (map (\<lambda>d. map_of d ''stash_id'') (stash_ids s'))"
    by (simp add: ex_plain_def ex_scene_def)
  have "find_duplicates_by_stashid [ex_plain, ex_twice] = [(''st-7'', [ex_twice, ex_twice])]"
    by code_simp
  with stashid_repeated_in_one_scene [OF a b c] show ?thesis by simp
qed

text \<open>
  Claim C3. In fingerprint grouping, of either kind, a scene whose files carry two
  fingerprints of the kind with the same non-empty value \<open>v\<close> (two files with one such
  fingerprint each) puts two entries into the bucket of \<open>v\<close>: when no other scene of the
  list has the value, the group returned under \<open>v\<close> is that scene twice.
\<close>

theorem fingerprint_repeated_in_one_scene:
  assumes "v \<noteq> []"
  shows "(fingerprint_hits ''oshash'' v s = 2 \<and>
          (\<forall>s' \<in> set before \<union> set after. fingerprint_hits ''oshash'' v s' = 0) \<longrightarrow>
            map_of (find_duplicates_by_oshash (before @ s # after)) v = Some [s, s]) \<and>
         (fingerprint_hits ''phash'' v s = 2 \<and>
          (\<forall>s' \<in> set before \<union> set after. fingerprint_hits ''phash'' v s' = 0) \<longrightarrow>
            map_of (find_duplicates_by_phash (before @ s # after)) v = Some [s, s])"
proof -
  have gen: "map_of (only_duplicates (fingerprint_groups kind (before @ s # after))) v = Some [s, s]"
    if two: "fingerprint_hits kind v s = 2"
      and none: "\<forall>s' \<in> set before \<union> set after. fingerprint_hits kind v s' = 0" for kind
  proof -
    have two': "count_list (fingerprint_values kind s) v = 2"
      using assms two by (simp add: count_fingerprint_values)
    have none': "\<forall>s' \<in> set before \<union> set after. count_list (fingerprint_values kind s') v = 0"
      using assms none by (simp add: count_fingerprint_values)
    show ?thesis
      unfolding fingerprint_groups_entries map_of_grouped
        lone_double_entry [where n = "\<lambda>s. count_list (fingerprint_values kind s) v", OF two' none']
      by simp
  qed
  show ?thesis
    unfolding find_duplicates_by_oshash_def find_duplicates_by_phash_def
    using gen [of "''oshash''"] gen [of "''phash''"] by blast
qed

theorem fingerprint_repeated_in_one_scene_witness:
  "find_duplicates_by_oshash [ex_plain, ex_two_files] = [(''xyz'', [ex_two_files, ex_two_files])] \<and>
   map_of (find_duplicates_by_oshash [ex_plain, ex_two_files]) ''xyz'' = Some [ex_two_files, ex_two_files] \<and>
   map_of (find_duplicates_by_phash [ex_plain, ex_two_files]) ''xyz'' = Some [ex_two_files, ex_two_files]"
proof -
  have a: "''xyz'' \<noteq> []" by simp
  have b: "fingerprint_hits ''oshash'' ''xyz'' ex_two_files = 2"
          "fingerprint_hits ''phash'' ''xyz'' ex_two_files = 2"
    by (simp_all add: fingerprint_hits_def file_fingerprints_def ex_two_files_def ex_scene_def)
  have c: "\<forall>s' \<in> set [ex_plain] \<union> set []. fingerprint_hits ''oshash'' ''xyz'' s' = 0"
          "\<forall>s' \<in> set [ex_plain] \<union> set []. fingerprint_hits ''phash'' ''xyz'' s' = 0"
    by (simp_all add: fingerprint_hits_def file_fingerprints_def ex_plain_def ex_scene_def)
  have d: "find_duplicates_by_oshash [ex_plain, ex_two_files] = [(''xyz'', [ex_two_files, ex_two_files])]"
    by code_simp
  from fingerprint_repeated_in_one_scene [OF a, of ex_two_files "[ex_plain]" "[]"] b c d
  show ?thesis by simp
qed

section \<open>Size of the groups\<close>

lemma find_duplicates_by_name_sizes:
  "(k, g) \<in> set (find_duplicates_by_name lower strip ratio scs) \<Longrightarrow> 1 < length g"
  unfolding find_duplicates_by_name_spec by (rule fuzzy_merge_spec_sizes)

lemma only_duplicates_sizes: "(k, g) \<in> set (only_duplicates d) \<Longrightarrow> 1 < length g"
  by (simp add: set_only_duplicates)

text \<open>
  Claim C2. For every list of scenes, every group that one of the four strategies returns
  (by stash id, by name, by oshash, by phash) has at least two members; so has every group
  of a page the route \<^verbatim>\<open>/duplicates/{duplicate_type}\<close> returns.
\<close>

theorem groups_have_two_members:
  "(\<forall>(k, g) \<in> set (find_duplicates_by_stashid scs). 2 \<le> length g) \<and>
   (\<forall>(k, g) \<in> set (find_duplicates_by_name lower strip ratio scs). 2 \<le> length g) \<and>
   (\<forall>(k, g) \<in> set (find_duplicates_by_oshash scs). 2 \<le> length g) \<and>
   (\<forall>(k, g) \<in> set (find_duplicates_by_phash scs). 2 \<le> length g) \<and>
   (\<forall>gs method_name ty config n total.
      fst (find_duplicates lower strip ratio up duplicate_type file) =
        Inr (DuplicatesPage gs method_name ty config n total) \<longrightarrow>
      (\<forall>(k, g) \<in> set gs. 2 \<le> length g))"
proof -
  have stashid: "\<forall>(k, g) \<in> set (find_duplicates_by_stashid scs). 2 \<le> length g" for scs
    unfolding find_duplicates_by_stashid_def using only_duplicates_sizes by fastforce
  have name: "\<forall>(k, g) \<in> set (find_duplicates_by_name lower strip ratio scs). 2 \<le> length g" for scs
    using find_duplicates_by_name_sizes by fastforce
  have oshash: "\<forall>(k, g) \<in> set (find_duplicates_by_oshash scs). 2 \<le> length g" for scs
    unfolding find_duplicates_by_oshash_def using only_duplicates_sizes by fastforce
  have phash: "\<forall>(k, g) \<in> set (find_duplicates_by_phash scs). 2 \<le> length g" for scs
    unfolding find_duplicates_by_phash_def using only_duplicates_sizes by fastforce
  have route: "\<forall>(k, g) \<in> set gs. 2 \<le> length g"
    if "fst (find_duplicates lower strip ratio up duplicate_type file) =
          Inr (DuplicatesPage gs method_name ty config n total)"
    for gs method_name ty config n total
  proof (cases "up (get_config file)")
    case (Inl e)
    with that show ?thesis
      by (cases e) (simp add: find_duplicates_def fetch_all_scenes_def Let_def)
  next
    case (Inr stash_data)
    with that have "gs = find_duplicates_by_stashid (scenes stash_data) \<or>
        gs = find_duplicates_by_name lower strip ratio (scenes stash_data) \<or>
        gs = find_duplicates_by_oshash (scenes stash_data) \<or>
        gs = find_duplicates_by_phash (scenes stash_data)"
      by (simp add: find_duplicates_def fetch_all_scenes_def Let_def split: if_splits)
    with stashid name oshash phash show ?thesis by blast
  qed
  from stashid name oshash phash route show ?thesis by blast
qed

theorem groups_have_two_members_witness:
  "(''st-99'', [ex_a, ex_b]) \<in> set (find_duplicates_by_stashid [ex_a, ex_c, ex_b]) \<and>
   (''summer vacation 2020'', [ex_a, ex_c, ex_b])
      \<in> set (find_duplicates_by_name ascii_lower ascii_strip indel_ratio [ex_a, ex_c, ex_b]) \<and>
   (''abc123'', [ex_a, ex_b]) \<in> set (find_duplicates_by_oshash [ex_a, ex_c, ex_b]) \<and>
   (''f0f0'', [ex_a, ex_b]) \<in> set (find_duplicates_by_phash [ex_a, ex_c, ex_b]) \<and>
   2 \<le> length [ex_a, ex_b] \<and> 2 \<le> length [ex_a, ex_c, ex_b]"
proof -
  have s: "find_duplicates_by_stashid [ex_a, ex_c, ex_b] = [(''st-99'', [ex_a, ex_b])]"
    by code_simp
  have tg: "title_groups ascii_lower ascii_strip [ex_a, ex_c, ex_b] =
      [(''summer vacation 2020'', [ex_a, ex_c]), (''summer vacation 2021'', [ex_b])]"
    by code_simp
  have r: "indel_ratio ''summer vacation 2020'' ''summer vacation 2021'' = 95"
    by (simp add: indel_ratio_def)
  have n: "find_duplicates_by_name ascii_lower ascii_strip indel_ratio [ex_a, ex_c, ex_b] =
      [(''summer vacation 2020'', [ex_a, ex_c, ex_b])]"
    by (simp add: find_duplicates_by_name_def tg r dd_get_def)
  have "find_duplicates_by_oshash [ex_a, ex_c, ex_b] = [(''abc123'', [ex_a, ex_b])]"
    and "find_duplicates_by_phash [ex_a, ex_c, ex_b] = [(''f0f0'', [ex_a, ex_b])]"
    by code_simp+
  with s n groups_have_two_members [of "[ex_a, ex_c, ex_b]" ascii_lower ascii_strip indel_ratio]
  show ?thesis by simp
qed

section \<open>Fingerprints without a value\<close>

lemma length_dd_append:
  "length (concat (map snd (dd_append d k v))) = Suc (length (concat (map snd d)))"
  by (induction d) auto

lemma length_dd_extend:
  "length (concat (map snd (dd_extend d kvs))) = length (concat (map snd d)) + length kvs"
  by (induction kvs arbitrary: d) (auto simp: length_dd_append)

lemma length_keyed_entries: "length (keyed_entries f scs) = (\<Sum>s\<leftarrow>scs. length (f s))"
  by (induction scs) (auto simp: keyed_entries_def)

lemma length_fingerprint_values:
  "length (fingerprint_values kind s) =
     length (filter (\<lambda>fp. map_of fp ''type'' = Some kind \<and> map_of fp ''value'' \<notin> {None, Some []})
       (file_fingerprints s))"
proof -
  have "\<And>fps. length (concat (map (\<lambda>fp. if map_of fp ''type'' = Some kind \<and> truthy (map_of fp ''value'')
                        then [the (map_of fp ''value'')] else []) fps)) =
     length (filter (\<lambda>fp. map_of fp ''type'' = Some kind \<and> map_of fp ''value'' \<notin> {None, Some []}) fps)"
    subgoal for fps by (induction fps) (auto elim!: truthy.elims)
    done
  then show ?thesis by (simp add: fingerprint_values_def)
qed

lemma fingerprint_hits_pos:
  "0 < fingerprint_hits kind v s \<Longrightarrow>
   \<exists>fp \<in> set (file_fingerprints s). map_of fp ''type'' = Some kind \<and> map_of fp ''value'' = Some v"
  by (auto simp: fingerprint_hits_def filter_empty_conv)

lemma fingerprint_groups_keys: "[] \<notin> fst ` set (fingerprint_groups kind scs)"
  unfolding fingerprint_groups_entries keys_dd_extend keys_keyed_entries
  using fingerprint_values_nonempty by fastforce

lemma fingerprint_found:
  assumes "(k, g) \<in> set (only_duplicates (fingerprint_groups kind scs))"
  shows "k \<noteq> [] \<and> g = concat (map (\<lambda>s. replicate (fingerprint_hits kind k s) s) scs)"
proof -
  from assms have "(k, g) \<in> set (fingerprint_groups kind scs)" by (simp add: set_only_duplicates)
  then have k: "k \<noteq> []" using fingerprint_groups_keys [of kind scs] by force
  from assms have "g = concat (map (\<lambda>s. replicate (count_list (fingerprint_values kind s) k) s) scs)"
    unfolding fingerprint_groups_entries in_grouped_iff by simp
  with k show ?thesis by (simp add: count_fingerprint_values)
qed

text \<open>
  Claim C10. In fingerprint grouping of either kind, a fingerprint of the kind whose value is
  the empty string or missing is skipped: no group is returned under the empty key; a
  returned group holds a scene once per fingerprint of the kind whose value is the group's
  key, and nothing else; a scene all of whose fingerprints of the kind lack a value is in no
  returned group; and the buckets, before the small ones are discarded, hold one entry per
  fingerprint of the kind that has a non-empty value.
\<close>

theorem empty_fingerprint_value_skipped:
  assumes "kind = ''oshash'' \<and> found = find_duplicates_by_oshash scs \<or>
           kind = ''phash'' \<and> found = find_duplicates_by_phash scs"
  shows "[] \<notin> fst ` set found \<and>
         (\<forall>(k, g) \<in> set found. g = concat (map (\<lambda>s. replicate (fingerprint_hits kind k s) s) scs)) \<and>
         ((\<forall>fp \<in> set (file_fingerprints s).
             map_of fp ''type'' = Some kind \<longrightarrow> map_of fp ''value'' \<in> {None, Some []}) \<longrightarrow>
          (\<forall>(k, g) \<in> set found. s \<notin> set g)) \<and>
         length (concat (map snd (fingerprint_groups kind scs))) =
           (\<Sum>s\<leftarrow>scs. length (filter (\<lambda>fp. map_of fp ''type'' = Some kind \<and>
                                              map_of fp ''value'' \<notin> {None, Some []})
                                  (file_fingerprints s)))"
proof -
  from assms have found: "found = only_duplicates (fingerprint_groups kind scs)"
    by (auto simp: find_duplicates_by_oshash_def find_duplicates_by_phash_def)
  have a: "[] \<notin> fst ` set found"
    unfolding found using fingerprint_found [of _ _ kind scs] by fastforce
  have b: "\<forall>(k, g) \<in> set found. g = concat (map (\<lambda>s. replicate (fingerprint_hits kind k s) s) scs)"
    unfolding found using fingerprint_found [of _ _ kind scs] by fastforce
  have c: "\<forall>(k, g) \<in> set found. s \<notin> set g"
    if none: "\<forall>fp \<in> set (file_fingerprints s).
             map_of fp ''type'' = Some kind \<longrightarrow> map_of fp ''value'' \<in> {None, Some []}"
  proof (clarify)
    fix k g assume kg: "(k, g) \<in> set found" and mem: "s \<in> set g"
    from kg have k: "k \<noteq> []" and g: "g = concat (map (\<lambda>s. replicate (fingerprint_hits kind k s) s) scs)"
      unfolding found using fingerprint_found by blast+
    from mem have "0 < fingerprint_hits kind k s" unfolding g member_repeats_iff by simp
    then obtain fp where "fp \<in> set (file_fingerprints s)" "map_of fp ''type'' = Some kind"
      "map_of fp ''value'' = Some k" using fingerprint_hits_pos by blast
    with none k show False by auto
  qed
  have d: "length (concat (map snd (fingerprint_groups kind scs))) =
           (\<Sum>s\<leftarrow>scs. length (filter (\<lambda>fp. map_of fp ''type'' = Some kind \<and>
                                              map_of fp ''value'' \<notin> {None, Some []})
                                  (file_fingerprints s)))"
    unfolding fingerprint_groups_entries length_dd_extend length_keyed_entries
      length_fingerprint_values by simp
  from a b c d show ?thesis by blast
qed

theorem empty_fingerprint_value_skipped_witness:
  "find_duplicates_by_oshash [ex_no_value, ex_a, ex_no_value, ex_b] = [(''abc123'', [ex_a, ex_b])] \<and>
   find_duplicates_by_phash [ex_no_value, ex_a, ex_no_value, ex_b] = [(''f0f0'', [ex_a, ex_b])] \<and>
   fingerprint_groups ''oshash'' [ex_no_value, ex_a, ex_no_value, ex_b] = [(''abc123'', [ex_a, ex_b])] \<and>
   [] \<notin> fst ` set (find_duplicates_by_oshash [ex_no_value, ex_a, ex_no_value, ex_b]) \<and>
   [] \<notin> fst ` set (find_duplicates_by_phash [ex_no_value, ex_a, ex_no_value, ex_b]) \<and>
   ex_no_value \<notin> set [ex_a, ex_b] \<and>
   length (concat (map snd (fingerprint_groups ''oshash'' [ex_no_value, ex_a, ex_no_value, ex_b]))) = 2"
proof -
  let ?scs = "[ex_no_value, ex_a, ex_no_value, ex_b]"
  have o: "find_duplicates_by_oshash ?scs = [(''abc123'', [ex_a, ex_b])]"
    and p: "find_duplicates_by_phash ?scs = [(''f0f0'', [ex_a, ex_b])]"
    and g: "fingerprint_groups ''oshash'' ?scs = [(''abc123'', [ex_a, ex_b])]"
    by code_simp+
  have ho: "''oshash'' = ''oshash'' \<and> find_duplicates_by_oshash ?scs = find_duplicates_by_oshash ?scs \<or>
            ''oshash'' = ''phash'' \<and> find_duplicates_by_oshash ?scs = find_duplicates_by_phash ?scs"
    by simp
  have hp: "''phash'' = ''oshash'' \<and> find_duplicates_by_phash ?scs = find_duplicates_by_oshash ?scs \<or>
            ''phash'' = ''phash'' \<and> find_duplicates_by_phash ?scs = find_duplicates_by_phash ?scs"
    by simp
  have none: "\<forall>fp \<in> set (file_fingerprints ex_no_value).
      map_of fp ''type'' = Some ''oshash'' \<longrightarrow> map_of fp ''value'' \<in> {None, Some []}"
    by (simp add: file_fingerprints_def ex_no_value_def ex_scene_def ex_file_def)
  note oshash = empty_fingerprint_value_skipped [OF ho, of ex_no_value]
  note phash = empty_fingerprint_value_skipped [OF hp, of ex_no_value]
  have a: "[] \<notin> fst ` set (find_duplicates_by_oshash ?scs)" using oshash by blast
  have b: "[] \<notin> fst ` set (find_duplicates_by_phash ?scs)" using phash by blast
  have "\<forall>(k, g) \<in> set (find_duplicates_by_oshash ?scs). ex_no_value \<notin> set g"
    using oshash none by blast
  then have c: "ex_no_value \<notin> set [ex_a, ex_b]" unfolding o by simp
  have d: "length (concat (map snd (fingerprint_groups ''oshash'' ?scs))) = 2"
    unfolding g by simp
  from o p g a b c d show ?thesis by blast
qed

section \<open>The fuzzy merge, claim C1\<close>

text \<open>
  Claim C1. In fuzzy-name grouping, one scan from a seed title \<open>t1\<close> over the later titles
  \<open>ts\<close> merges the whole bucket of a title \<open>t2\<close> that is not yet consumed if and only if the
  ratio of \<open>t1\<close> and \<open>t2\<close> exceeds 85, and marks exactly the merged titles consumed. The
  titles scanned are the distinct normalized titles in the order in which they were first
  met, and the whole grouping is the fuzzy merge as specified: a consumed title leaves the
  list of titles, so that it seeds no group and is compared with no further title.
\<close>

theorem fuzzy_merge_as_specified:
  "find_duplicates_by_name lower strip ratio scs =
     fuzzy_merge_spec ratio (title_groups lower strip scs) (map fst (title_groups lower strip scs)) \<and>
   distinct (map fst (title_groups lower strip scs)) \<and>
   map fst (title_groups lower strip scs) =
     rev (remdups (rev (map (\<lambda>s. strip (lower (title s)))
                          (filter (\<lambda>s. title s \<noteq> []) scs)))) \<and>
   (distinct ts \<longrightarrow>
      inner_scan ratio tg t1 ts (grp, processed) =
        (grp @ concat (map (dd_get tg) (filter (\<lambda>t2. t2 \<notin> processed \<and> 85 < ratio t1 t2) ts)),
         processed \<union> set (filter (\<lambda>t2. t2 \<notin> processed \<and> 85 < ratio t1 t2) ts)))"
  by (intro conjI impI find_duplicates_by_name_spec distinct_title_groups title_groups_key_order
      inner_scan_filter)

theorem fuzzy_merge_as_specified_witness:
  "find_duplicates_by_name ascii_lower ascii_strip indel_ratio [ex_a, ex_c, ex_b] =
     [(''summer vacation 2020'', [ex_a, ex_c, ex_b])] \<and>
   fuzzy_merge_spec indel_ratio (title_groups ascii_lower ascii_strip [ex_a, ex_c, ex_b])
     [''summer vacation 2020'', ''summer vacation 2021''] =
     [(''summer vacation 2020'', [ex_a, ex_c, ex_b])] \<and>
   inner_scan indel_ratio (title_groups ascii_lower ascii_strip [ex_a, ex_c, ex_b]) ''summer vacation 2020''
     [''summer vacation 2021''] ([ex_a, ex_c], {}) =
     ([ex_a, ex_c, ex_b], {''summer vacation 2021''})"
proof -
  let ?scs = "[ex_a, ex_c, ex_b]"
  have tg: "title_groups ascii_lower ascii_strip ?scs =
      [(''summer vacation 2020'', [ex_a, ex_c]), (''summer vacation 2021'', [ex_b])]"
    by code_simp
  have r: "indel_ratio ''summer vacation 2020'' ''summer vacation 2021'' = 95"
    by (simp add: indel_ratio_def)
  have d: "distinct [''summer vacation 2021'']" by simp
  note inst = fuzzy_merge_as_specified [of ascii_lower ascii_strip indel_ratio ?scs "[''summer vacation 2021'']"
      "title_groups ascii_lower ascii_strip ?scs" "''summer vacation 2020''" "[ex_a, ex_c]" "{}"]
  from inst have spec: "find_duplicates_by_name ascii_lower ascii_strip indel_ratio ?scs =
      fuzzy_merge_spec indel_ratio (title_groups ascii_lower ascii_strip ?scs) (map fst (title_groups ascii_lower ascii_strip ?scs))"
    by blast
  have n: "find_duplicates_by_name ascii_lower ascii_strip indel_ratio ?scs = [(''summer vacation 2020'', [ex_a, ex_c, ex_b])]"
    by (simp add: find_duplicates_by_name_def tg r dd_get_def)
  from inst d have "inner_scan indel_ratio (title_groups ascii_lower ascii_strip ?scs) ''summer vacation 2020''
     [''summer vacation 2021''] ([ex_a, ex_c], {}) =
     ([ex_a, ex_c] @ concat (map (dd_get (title_groups ascii_lower ascii_strip ?scs))
        (filter (\<lambda>t2. t2 \<notin> {} \<and> 85 < indel_ratio ''summer vacation 2020'' t2) [''summer vacation 2021''])),
      {} \<union> set (filter (\<lambda>t2. t2 \<notin> {} \<and> 85 < indel_ratio ''summer vacation 2020'' t2) [''summer vacation 2021'']))"
    by blast
  then have i: "inner_scan indel_ratio (title_groups ascii_lower ascii_strip ?scs) ''summer vacation 2020''
     [''summer vacation 2021''] ([ex_a, ex_c], {}) = ([ex_a, ex_c, ex_b], {''summer vacation 2021''})"
    by (simp add: r tg dd_get_def)
  from spec n have "fuzzy_merge_spec indel_ratio (title_groups ascii_lower ascii_strip ?scs)
     [''summer vacation 2020'', ''summer vacation 2021''] = [(''summer vacation 2020'', [ex_a, ex_c, ex_b])]"
    by (simp add: tg)
  with n i show ?thesis by blast
qed

section \<open>The routes, claims C4 and C8\<close>

lemma find_duplicates_fetch_failed:
  "up (get_config file) = Inl (HTTPException code detail) \<Longrightarrow>
   fst (find_duplicates lower strip ratio up duplicate_type file) =
     Inr (ErrorPage (''Error fetching data: '' @ detail) (get_config file))"
  by (simp add: find_duplicates_def fetch_all_scenes_def Let_def)

lemma find_duplicates_posts:
  "snd (find_duplicates lower strip ratio up duplicate_type file) = [stash_endpoint (get_config file)]"
proof (cases "up (get_config file)")
  case (Inl e)
  then show ?thesis by (cases e) (simp add: find_duplicates_def fetch_all_scenes_def Let_def)
next
  case (Inr stash_data)
  then show ?thesis by (simp add: find_duplicates_def fetch_all_scenes_def Let_def)
qed

text \<open>
  Claim C4, as amended. The route fetches the catalog before it looks at \<open>duplicate_type\<close>.
  For every \<open>duplicate_type\<close> other than \<^verbatim>\<open>stashid\<close>, \<^verbatim>\<open>name\<close>, \<^verbatim>\<open>oshash\<close> and \<^verbatim>\<open>phash\<close>: when
  the fetch delivers a scene list, \<^verbatim>\<open>find_duplicates\<close> raises the not-found \<^verbatim>\<open>HTTPException\<close>
  (status 404); when the fetch raises, the route returns the error page with the detail of
  that exception; and in neither case does it return a duplicates page, so no empty groups
  result.
\<close>

theorem unknown_strategy_not_found:
  assumes "duplicate_type \<notin> {''stashid'', ''name'', ''oshash'', ''phash''}"
  shows "(up (get_config file) = Inr stash_data \<longrightarrow>
            fst (find_duplicates lower strip ratio up duplicate_type file) =
              Inl (HTTPException 404 ''Duplicate type not found'')) \<and>
         (up (get_config file) = Inl (HTTPException code detail) \<longrightarrow>
            fst (find_duplicates lower strip ratio up duplicate_type file) =
              Inr (ErrorPage (''Error fetching data: '' @ detail) (get_config file))) \<and>
         (\<forall>gs method_name ty config n total.
            fst (find_duplicates lower strip ratio up duplicate_type file) \<noteq>
              Inr (DuplicatesPage gs method_name ty config n total))"
proof (cases "up (get_config file)")
  case (Inl e)
  then show ?thesis by (cases e) (simp add: find_duplicates_fetch_failed)
next
  case (Inr data)
  with assms show ?thesis
    by (simp add: find_duplicates_def fetch_all_scenes_def Let_def)
qed

theorem unknown_strategy_not_found_witness:
  "''md5'' \<notin> {''stashid'', ''name'', ''oshash'', ''phash''} \<and>
   fst (find_duplicates ascii_lower ascii_strip indel_ratio ex_upstream ''md5'' (Some ex_configured)) =
     Inl (HTTPException 404 ''Duplicate type not found'') \<and>
   fst (find_duplicates ascii_lower ascii_strip indel_ratio ex_unreachable ''md5'' (Some ex_configured)) =
     Inr (ErrorPage ''Error fetching data: Failed to connect to Stash: connection refused''
            ex_configured)"
proof -
  have a: "''md5'' \<notin> {''stashid'', ''name'', ''oshash'', ''phash''}" by simp
  have b: "ex_upstream (get_config (Some ex_configured)) = Inr \<lparr>count = 3, scenes = [ex_a, ex_c, ex_b]\<rparr>"
    by (simp add: ex_upstream_def)
  have c: "ex_unreachable (get_config (Some ex_configured)) =
      Inl (HTTPException 500 ''Failed to connect to Stash: connection refused'')"
    by (simp add: ex_unreachable_def)
  have g: "get_config (Some ex_configured) = ex_configured" by (simp add: get_config_def)
  from unknown_strategy_not_found [OF a, of ex_upstream "Some ex_configured"
      "\<lparr>count = 3, scenes = [ex_a, ex_c, ex_b]\<rparr>" ascii_lower ascii_strip indel_ratio] b
  have ok: "fst (find_duplicates ascii_lower ascii_strip indel_ratio ex_upstream ''md5'' (Some ex_configured)) =
     Inl (HTTPException 404 ''Duplicate type not found'')" by blast
  from unknown_strategy_not_found [OF a, of ex_unreachable "Some ex_configured" _
      ascii_lower ascii_strip indel_ratio 500 "''Failed to connect to Stash: connection refused''"] c
  have "fst (find_duplicates ascii_lower ascii_strip indel_ratio ex_unreachable ''md5'' (Some ex_configured)) =
     Inr (ErrorPage (''Error fetching data: '' @ ''Failed to connect to Stash: connection refused'')
            (get_config (Some ex_configured)))" by blast
  then have failed: "fst (find_duplicates ascii_lower ascii_strip indel_ratio ex_unreachable ''md5'' (Some ex_configured)) =
     Inr (ErrorPage ''Error fetching data: Failed to connect to Stash: connection refused''
            ex_configured)" unfolding g by simp
  from a ok failed show ?thesis by (intro conjI)
qed

text \<open>
  Claim C4 as it was stated fails when the fetch fails: for the unknown selector \<^verbatim>\<open>md5\<close> the
  route returns the error page, not the not-found exception.
\<close>

theorem unknown_strategy_error_page_when_fetch_fails:
  "''md5'' \<notin> {''stashid'', ''name'', ''oshash'', ''phash''} \<and>
   fst (find_duplicates ascii_lower ascii_strip indel_ratio ex_unreachable ''md5'' (Some ex_configured)) =
     Inr (ErrorPage ''Error fetching data: Failed to connect to Stash: connection refused''
            ex_configured) \<and>
   fst (find_duplicates ascii_lower ascii_strip indel_ratio ex_unreachable ''md5'' (Some ex_configured)) \<noteq>
     Inl (HTTPException 404 ''Duplicate type not found'')"
  by (simp add: find_duplicates_def fetch_all_scenes_def Let_def ex_unreachable_def get_config_def)

text \<open>
  Claim C8 (what the code does where the claim fails). With no \<^verbatim>\<open>config.json\<close> the endpoint
  is the placeholder. Whenever the endpoint is the placeholder, the main page redirects to
  \<^verbatim>\<open>/settings\<close> and posts nothing, while the route \<^verbatim>\<open>/duplicates/{duplicate_type}\<close> posts its
  query to the placeholder endpoint and never redirects.
\<close>

theorem duplicates_route_fetches_unconfigured:
  "stash_endpoint (get_config None) = ''http://localhost:9999/graphql'' \<and>
   (stash_endpoint (get_config file) = ''http://localhost:9999/graphql'' \<longrightarrow>
      root_page up file = (RedirectResponse ''/settings'', []) \<and>
      snd (find_duplicates lower strip ratio up duplicate_type file) = [''http://localhost:9999/graphql''] \<and>
      (\<forall>target. fst (find_duplicates lower strip ratio up duplicate_type file) \<noteq> Inr (RedirectResponse target)))"
proof -
  have no_redirect: "fst (find_duplicates lower strip ratio up duplicate_type file) \<noteq> Inr (RedirectResponse target)"
    for target
  proof (cases "up (get_config file)")
    case (Inl e)
    then show ?thesis by (cases e) (simp add: find_duplicates_fetch_failed)
  next
    case (Inr data)
    then show ?thesis by (simp add: find_duplicates_def fetch_all_scenes_def Let_def)
  qed
  have absent: "stash_endpoint (get_config None) = ''http://localhost:9999/graphql''"
    by (simp add: get_config_def)
  have root: "root_page up file = (RedirectResponse ''/settings'', [])"
    if "stash_endpoint (get_config file) = ''http://localhost:9999/graphql''"
    using that by (simp add: root_page_def Let_def)
  have posts: "snd (find_duplicates lower strip ratio up duplicate_type file) = [''http://localhost:9999/graphql'']"
    if "stash_endpoint (get_config file) = ''http://localhost:9999/graphql''"
    using that by (simp only: find_duplicates_posts)
  from absent root posts no_redirect show ?thesis by blast
qed

theorem duplicates_route_fetches_unconfigured_witness:
  "root_page ex_upstream None = (RedirectResponse ''/settings'', []) \<and>
   find_duplicates ascii_lower ascii_strip indel_ratio ex_upstream ''stashid'' None =
     (Inr (DuplicatesPage [(''st-99'', [ex_a, ex_b])] ''Stash ID'' ''stashid''
        \<lparr>stash_endpoint = ''http://localhost:9999/graphql'', api_key = Some []\<rparr> 1 2),
      [''http://localhost:9999/graphql'']) \<and>
   root_page ex_upstream (Some ex_placeholder) = (RedirectResponse ''/settings'', []) \<and>
   snd (find_duplicates ascii_lower ascii_strip indel_ratio ex_upstream ''stashid'' (Some ex_placeholder)) =
     [''http://localhost:9999/graphql'']"
proof -
  have s: "find_duplicates_by_stashid [ex_a, ex_c, ex_b] = [(''st-99'', [ex_a, ex_b])]"
    by code_simp
  have page: "find_duplicates ascii_lower ascii_strip indel_ratio ex_upstream ''stashid'' None =
     (Inr (DuplicatesPage [(''st-99'', [ex_a, ex_b])] ''Stash ID'' ''stashid''
        \<lparr>stash_endpoint = ''http://localhost:9999/graphql'', api_key = Some []\<rparr> 1 2),
      [''http://localhost:9999/graphql''])"
    by (simp add: find_duplicates_def fetch_all_scenes_def Let_def ex_upstream_def s
        get_config_def total_duplicate_scenes_def)
  have stored: "stash_endpoint (get_config (Some ex_placeholder)) = ''http://localhost:9999/graphql''"
    by (simp add: get_config_def ex_placeholder_def)
  note absent = duplicates_route_fetches_unconfigured
      [of None ex_upstream ascii_lower ascii_strip indel_ratio "''stashid''"]
  note placeholder = duplicates_route_fetches_unconfigured
      [of "Some ex_placeholder" ex_upstream ascii_lower ascii_strip indel_ratio "''stashid''"]
  from absent have a: "root_page ex_upstream None = (RedirectResponse ''/settings'', [])" by blast
  from placeholder stored have
    b: "root_page ex_upstream (Some ex_placeholder) = (RedirectResponse ''/settings'', [])" and
    c: "snd (find_duplicates ascii_lower ascii_strip indel_ratio ex_upstream ''stashid'' (Some ex_placeholder)) =
          [''http://localhost:9999/graphql'']"
    by blast+
  from a page b c show ?thesis by (intro conjI)
qed

section \<open>Titles, claim C5\<close>

lemma bucket_title_keys:
  "bucket (keyed_entries (title_keys lower strip) scs) k =
     filter (\<lambda>s. title s \<noteq> [] \<and> strip (lower (title s)) = k) scs"
  unfolding bucket_keyed_entries by (induction scs) (auto simp: title_keys_def)

lemma dd_get_title_groups:
  "dd_get (title_groups lower strip scs) k =
     filter (\<lambda>s. title s \<noteq> [] \<and> strip (lower (title s)) = k) scs"
  unfolding title_groups_entries dd_get_dd_extend bucket_title_keys by simp

lemma title_groups_titled: "title_groups lower strip (filter (\<lambda>s. title s \<noteq> []) scs) = title_groups lower strip scs"
proof -
  have "keyed_entries (title_keys lower strip) (filter (\<lambda>s. title s \<noteq> []) scs) = keyed_entries (title_keys lower strip) scs"
    by (induction scs) (auto simp: keyed_entries_def title_keys_def)
  then show ?thesis by (simp add: title_groups_entries)
qed

lemma title_groups_keys:
  "fst ` set (title_groups lower strip scs) =
     (\<lambda>s. strip (lower (title s))) ` {s \<in> set scs. title s \<noteq> []}"
  unfolding title_groups_entries keys_dd_extend keys_keyed_entries
  by (auto simp: title_keys_def split: if_splits)

lemma find_duplicates_by_name_groups:
  assumes "(k, g) \<in> set (find_duplicates_by_name lower strip ratio scs)"
  shows "\<exists>ms. subseq (k # ms) (map fst (title_groups lower strip scs)) \<and>
              g = concat (map (dd_get (title_groups lower strip scs)) (k # ms)) \<and>
              (\<forall>t2 \<in> set ms. 85 < ratio k t2)"
  using assms unfolding find_duplicates_by_name_spec by (rule fuzzy_merge_spec_groups)

lemma elem_le_sum_list_nat: "t \<in> set xs \<Longrightarrow> (f t :: nat) \<le> (\<Sum>x\<leftarrow>xs. f x)"
  by (induction xs) auto

lemma fuzzy_merge_spec_covers:
  "t \<in> set ts \<Longrightarrow> 1 < length (dd_get tg t) \<Longrightarrow>
   \<exists>(k, g) \<in> set (fuzzy_merge_spec ratio tg ts). set (dd_get tg t) \<subseteq> set g"
proof (induction ratio tg ts rule: fuzzy_merge_spec.induct)
  case (1 ratio tg)
  then show ?case by simp
next
  case (2 ratio tg t1 ts)
  let ?merged = "filter (\<lambda>t2. 85 < ratio t1 t2) ts"
  let ?rest = "filter (\<lambda>t2. \<not> 85 < ratio t1 t2) ts"
  let ?grp = "dd_get tg t1 @ concat (map (dd_get tg) ?merged)"
  have unfold: "fuzzy_merge_spec ratio tg (t1 # ts) =
      (if 1 < length ?grp then [(t1, ?grp)] else []) @ fuzzy_merge_spec ratio tg ?rest"
    by (simp add: Let_def)
  consider (seed) "t = t1" | (merged) "t \<in> set ?merged" | (later) "t \<in> set ?rest"
    using "2.prems"(1) by auto
  then show ?case
  proof cases
    case seed
    with "2.prems"(2) have "1 < length ?grp" by simp
    with seed show ?thesis unfolding unfold by auto
  next
    case merged
    then have sub: "set (dd_get tg t) \<subseteq> set ?grp" by auto
    have "length (dd_get tg t) \<le> (\<Sum>t2\<leftarrow>?merged. length (dd_get tg t2))"
      using merged by (rule elem_le_sum_list_nat)
    then have "length (dd_get tg t) \<le> length ?grp"
      by (simp add: length_concat comp_def)
    with "2.prems"(2) have "1 < length ?grp" by simp
    with sub show ?thesis unfolding unfold by auto
  next
    case later
    from "2.IH" [OF refl refl later "2.prems"(2)] show ?thesis unfolding unfold by auto
  qed
qed

lemma titled_scene_in_bucket:
  "s \<in> set scs \<Longrightarrow> title s \<noteq> [] \<Longrightarrow>
   s \<in> set (dd_get (title_groups lower strip scs) (strip (lower (title s))))"
  by (simp add: dd_get_title_groups)

lemma titled_scene_returned:
  assumes "s \<in> set scs" and "title s \<noteq> []"
    and "1 < length (dd_get (title_groups lower strip scs) (strip (lower (title s))))"
  shows "\<exists>(k, g) \<in> set (find_duplicates_by_name lower strip ratio scs). s \<in> set g"
proof -
  let ?tg = "title_groups lower strip scs"
  let ?t = "strip (lower (title s))"
  have "?t \<in> fst ` set ?tg" using assms(1,2) unfolding title_groups_keys by blast
  then have "?t \<in> set (map fst ?tg)" by simp
  from fuzzy_merge_spec_covers [OF this assms(3), of ratio]
  obtain k g where "(k, g) \<in> set (fuzzy_merge_spec ratio ?tg (map fst ?tg))"
    "set (dd_get ?tg ?t) \<subseteq> set g" by blast
  with titled_scene_in_bucket [OF assms(1,2), of lower strip] show ?thesis
    unfolding find_duplicates_by_name_spec by blast
qed

text \<open>
  Claim C5, as amended. In fuzzy-name grouping, every scene whose title is the empty string
  is excluded entirely: the buckets and the returned groups are those of the list without
  these scenes, and no returned group has such a member. Every non-empty title, a
  whitespace-only one included, is normalized with \<^verbatim>\<open>lower()\<close> and \<^verbatim>\<open>strip()\<close> before bucketing:
  the keys are the normalized non-empty titles, and the bucket of a key holds, in source
  order, the scenes with a non-empty title that normalizes to the key. So a scene whose
  non-empty title normalizes to the empty string is in the bucket of the empty key, and a
  scene with a non-empty title whose bucket has two entries is in a returned group.
\<close>

theorem empty_titles_excluded:
  "title_groups lower strip scs = title_groups lower strip (filter (\<lambda>s. title s \<noteq> []) scs) \<and>
   find_duplicates_by_name lower strip ratio scs =
     find_duplicates_by_name lower strip ratio (filter (\<lambda>s. title s \<noteq> []) scs) \<and>
   (\<forall>(k, g) \<in> set (find_duplicates_by_name lower strip ratio scs). \<forall>s \<in> set g. title s \<noteq> []) \<and>
   fst ` set (title_groups lower strip scs) =
     (\<lambda>s. strip (lower (title s))) ` {s \<in> set scs. title s \<noteq> []} \<and>
   (\<forall>k. dd_get (title_groups lower strip scs) k =
          filter (\<lambda>s. title s \<noteq> [] \<and> strip (lower (title s)) = k) scs) \<and>
   (\<forall>s \<in> set scs. title s \<noteq> [] \<and> strip (lower (title s)) = [] \<longrightarrow>
      s \<in> set (dd_get (title_groups lower strip scs) [])) \<and>
   (\<forall>s \<in> set scs. title s \<noteq> [] \<and>
      1 < length (dd_get (title_groups lower strip scs) (strip (lower (title s)))) \<longrightarrow>
      (\<exists>(k, g) \<in> set (find_duplicates_by_name lower strip ratio scs). s \<in> set g))"
proof -
  have members: "title s \<noteq> []"
    if "(k, g) \<in> set (find_duplicates_by_name lower strip ratio scs)" "s \<in> set g"
    for k g s
  proof -
    from find_duplicates_by_name_groups [OF that(1)] obtain ms where
      "g = concat (map (dd_get (title_groups lower strip scs)) (k # ms))" by blast
    with that(2) obtain t where "s \<in> set (dd_get (title_groups lower strip scs) t)" by auto
    then show ?thesis by (simp add: dd_get_title_groups)
  qed
  have a: "title_groups lower strip scs = title_groups lower strip (filter (\<lambda>s. title s \<noteq> []) scs)"
    by (simp add: title_groups_titled)
  have b: "find_duplicates_by_name lower strip ratio scs =
     find_duplicates_by_name lower strip ratio (filter (\<lambda>s. title s \<noteq> []) scs)"
    by (simp add: find_duplicates_by_name_def title_groups_titled)
  have c: "\<forall>(k, g) \<in> set (find_duplicates_by_name lower strip ratio scs). \<forall>s \<in> set g. title s \<noteq> []"
    using members by blast
  have d: "\<forall>k. dd_get (title_groups lower strip scs) k =
          filter (\<lambda>s. title s \<noteq> [] \<and> strip (lower (title s)) = k) scs"
    by (simp add: dd_get_title_groups)
  have e: "\<forall>s \<in> set scs. title s \<noteq> [] \<and> strip (lower (title s)) = [] \<longrightarrow>
      s \<in> set (dd_get (title_groups lower strip scs) [])"
    by (simp add: dd_get_title_groups)
  have f: "\<forall>s \<in> set scs. title s \<noteq> [] \<and>
      1 < length (dd_get (title_groups lower strip scs) (strip (lower (title s)))) \<longrightarrow>
      (\<exists>(k, g) \<in> set (find_duplicates_by_name lower strip ratio scs). s \<in> set g)"
    using titled_scene_returned [of _ scs lower strip ratio] by blast
  from a b c title_groups_keys d e f show ?thesis by (intro conjI)
qed

theorem empty_titles_excluded_witness:
  "find_duplicates_by_name ascii_lower ascii_strip indel_ratio [ex_untitled, ex_a, ex_untitled, ex_c, ex_b] =
     [(''summer vacation 2020'', [ex_a, ex_c, ex_b])] \<and>
   title_groups ascii_lower ascii_strip [ex_untitled, ex_a, ex_untitled, ex_c, ex_b] =
     [(''summer vacation 2020'', [ex_a, ex_c]), (''summer vacation 2021'', [ex_b])] \<and>
   title ex_untitled = [] \<and> title ex_a \<noteq> [] \<and> title ex_c \<noteq> [] \<and> title ex_b \<noteq> [] \<and>
   ex_blank1 \<in> set (dd_get (title_groups ascii_lower ascii_strip [ex_untitled, ex_blank1, ex_blank2]) [])"
proof -
  let ?scs = "[ex_untitled, ex_a, ex_untitled, ex_c, ex_b]"
  have blank: "ex_blank1 \<in> set [ex_untitled, ex_blank1, ex_blank2] \<and> title ex_blank1 \<noteq> [] \<and>
      ascii_strip (ascii_lower (title ex_blank1)) = []"
    by code_simp
  from empty_titles_excluded [of ascii_lower ascii_strip "[ex_untitled, ex_blank1, ex_blank2]"
      indel_ratio] blank
  have e: "ex_blank1 \<in> set (dd_get (title_groups ascii_lower ascii_strip
      [ex_untitled, ex_blank1, ex_blank2]) [])"
    by blast
  have f: "filter (\<lambda>s. title s \<noteq> []) ?scs = [ex_a, ex_c, ex_b]"
    by (simp add: ex_untitled_def ex_a_def ex_b_def ex_c_def ex_scene_def)
  have tg: "title_groups ascii_lower ascii_strip [ex_a, ex_c, ex_b] =
      [(''summer vacation 2020'', [ex_a, ex_c]), (''summer vacation 2021'', [ex_b])]"
    by code_simp
  have r: "indel_ratio ''summer vacation 2020'' ''summer vacation 2021'' = 95"
    by (simp add: indel_ratio_def)
  have n: "find_duplicates_by_name ascii_lower ascii_strip indel_ratio [ex_a, ex_c, ex_b] =
      [(''summer vacation 2020'', [ex_a, ex_c, ex_b])]"
    by (simp add: find_duplicates_by_name_def tg r dd_get_def)
  note inst = empty_titles_excluded [of ascii_lower ascii_strip ?scs indel_ratio]
  from inst have a: "find_duplicates_by_name ascii_lower ascii_strip indel_ratio ?scs =
      [(''summer vacation 2020'', [ex_a, ex_c, ex_b])]"
    unfolding f n by blast
  from inst have b: "title_groups ascii_lower ascii_strip ?scs =
      [(''summer vacation 2020'', [ex_a, ex_c]), (''summer vacation 2021'', [ex_b])]"
    unfolding f tg by blast
  from inst have "\<forall>(k, g) \<in> set (find_duplicates_by_name ascii_lower ascii_strip indel_ratio ?scs). \<forall>s \<in> set g. title s \<noteq> []"
    by blast
  then have c: "title ex_a \<noteq> [] \<and> title ex_c \<noteq> [] \<and> title ex_b \<noteq> []"
    unfolding a by simp
  have d: "title ex_untitled = []" by (simp add: ex_untitled_def ex_scene_def)
  from a b c d e show ?thesis by (intro conjI) blast+
qed

text \<open>
  Claim C5 as it was stated fails on titles of whitespace only: both scenes below are
  bucketed under the empty key and returned as a group.
\<close>

theorem blank_titles_are_grouped:
  "title ex_blank1 = '' '' \<and> title ex_blank2 = ''   '' \<and>
   find_duplicates_by_name ascii_lower ascii_strip indel_ratio [ex_blank1, ex_blank2] = [([], [ex_blank1, ex_blank2])]"
proof -
  have tg: "title_groups ascii_lower ascii_strip [ex_blank1, ex_blank2] = [([], [ex_blank1, ex_blank2])]"
    by code_simp
  show ?thesis
    by (simp add: find_duplicates_by_name_def tg dd_get_def) (simp add: ex_blank1_def ex_blank2_def ex_scene_def)
qed

section \<open>Identifiers, claim C7\<close>

lemma stashid_found:
  assumes "(k, g) \<in> set (find_duplicates_by_stashid scs)"
  shows "k \<noteq> [] \<and>
         g = concat (map (\<lambda>s. replicate
               (count_list (map (\<lambda>d. map_of d ''stash_id'') (stash_ids s)) (Some k)) s) scs)"
proof -
  from assms have g: "g = concat (map (\<lambda>s. replicate (count_list (stash_ids_of s) k) s) scs)"
    and len: "1 < length g"
    unfolding find_duplicates_by_stashid_def stashid_groups_entries in_grouped_iff by blast+
  have "k \<noteq> []"
  proof
    assume "k = []"
    then have "g = []" unfolding g by (simp add: count_stash_ids_of)
    with len show False by simp
  qed
  with g show ?thesis by (simp add: count_stash_ids_of)
qed

lemma distinct_find_duplicates_by_stashid: "distinct (map fst (find_duplicates_by_stashid scs))"
  unfolding find_duplicates_by_stashid_def stashid_groups_entries
  by (intro distinct_only_duplicates distinct_dd_extend) simp

lemma stashid_member_key:
  assumes "(k, g) \<in> set (find_duplicates_by_stashid scs)" and "s \<in> set g"
  shows "k \<in> set (stash_ids_of s)"
proof -
  from assms(1) have g: "g = concat (map (\<lambda>s. replicate (count_list (stash_ids_of s) k) s) scs)"
    unfolding find_duplicates_by_stashid_def stashid_groups_entries in_grouped_iff by simp
  from assms(2) have "0 < count_list (stash_ids_of s) k" unfolding g member_repeats_iff by simp
  then show ?thesis using count_list_0_iff [of "stash_ids_of s" k] by auto
qed

lemma groups_of_scene_bound:
  "length (filter (\<lambda>(k, g). s \<in> set g) (find_duplicates_by_stashid scs)) \<le> card (set (stash_ids_of s))"
proof -
  let ?hit = "filter (\<lambda>(k, g). s \<in> set g) (find_duplicates_by_stashid scs)"
  have d: "distinct (map fst ?hit)"
    using distinct_find_duplicates_by_stashid [of scs] by (rule distinct_map_filter)
  have "set (map fst ?hit) \<subseteq> set (stash_ids_of s)"
    using stashid_member_key by fastforce
  then have "card (set (map fst ?hit)) \<le> card (set (stash_ids_of s))"
    by (intro card_mono) simp_all
  moreover have "card (set (map fst ?hit)) = length (map fst ?hit)"
    using d by (rule distinct_card)
  ultimately show ?thesis by simp
qed

lemma length_repeats:
  "length (concat (map (\<lambda>s. replicate (n s) s) scs)) = (\<Sum>s\<leftarrow>scs. n s)"
  by (induction scs) auto

lemma stashid_found_iff:
  "(k, g) \<in> set (find_duplicates_by_stashid scs) \<longleftrightarrow>
     k \<noteq> [] \<and>
     g = concat (map (\<lambda>s. replicate
           (count_list (map (\<lambda>d. map_of d ''stash_id'') (stash_ids s)) (Some k)) s) scs) \<and>
     1 < length g"
proof (cases "k = []")
  case True
  then show ?thesis using stashid_found [of k g scs] by blast
next
  case False
  then show ?thesis
    unfolding find_duplicates_by_stashid_def stashid_groups_entries in_grouped_iff
    by (simp add: count_stash_ids_of)
qed

lemma groups_of_scene_keys:
  assumes "s \<in> set scs"
  shows "fst ` set (filter (\<lambda>(k, g). s \<in> set g) (find_duplicates_by_stashid scs)) =
         {k \<in> set (stash_ids_of s). 1 < (\<Sum>s'\<leftarrow>scs. count_list (stash_ids_of s') k)}"
proof (intro set_eqI iffI)
  fix k
  assume "k \<in> fst ` set (filter (\<lambda>(k, g). s \<in> set g) (find_duplicates_by_stashid scs))"
  then obtain g where kg: "(k, g) \<in> set (find_duplicates_by_stashid scs)" and mem: "s \<in> set g"
    by auto
  from kg have "g = concat (map (\<lambda>s. replicate (count_list (stash_ids_of s) k) s) scs)" "1 < length g"
    unfolding find_duplicates_by_stashid_def stashid_groups_entries in_grouped_iff by blast+
  then have "1 < (\<Sum>s'\<leftarrow>scs. count_list (stash_ids_of s') k)" by (simp add: length_repeats)
  with stashid_member_key [OF kg mem]
  show "k \<in> {k \<in> set (stash_ids_of s). 1 < (\<Sum>s'\<leftarrow>scs. count_list (stash_ids_of s') k)}" by simp
next
  fix k
  assume "k \<in> {k \<in> set (stash_ids_of s). 1 < (\<Sum>s'\<leftarrow>scs. count_list (stash_ids_of s') k)}"
  then have k: "k \<in> set (stash_ids_of s)" and big: "1 < (\<Sum>s'\<leftarrow>scs. count_list (stash_ids_of s') k)"
    by simp_all
  let ?g = "concat (map (\<lambda>s. replicate (count_list (stash_ids_of s) k) s) scs)"
  from big have "1 < length ?g" by (simp add: length_repeats)
  then have kg: "(k, ?g) \<in> set (find_duplicates_by_stashid scs)"
    unfolding find_duplicates_by_stashid_def stashid_groups_entries in_grouped_iff by simp
  from k have "0 < count_list (stash_ids_of s) k" using count_list_0_iff [of "stash_ids_of s" k] by auto
  with assms have "s \<in> set ?g" unfolding member_repeats_iff by simp
  with kg show "k \<in> fst ` set (filter (\<lambda>(k, g). s \<in> set g) (find_duplicates_by_stashid scs))"
    by force
qed

lemma groups_of_scene_count:
  assumes "s \<in> set scs"
  shows "length (filter (\<lambda>(k, g). s \<in> set g) (find_duplicates_by_stashid scs)) =
         card {k \<in> set (stash_ids_of s). 1 < (\<Sum>s'\<leftarrow>scs. count_list (stash_ids_of s') k)}"
proof -
  let ?hit = "filter (\<lambda>(k, g). s \<in> set g) (find_duplicates_by_stashid scs)"
  have d: "distinct (map fst ?hit)"
    using distinct_find_duplicates_by_stashid [of scs] by (rule distinct_map_filter)
  have "length ?hit = length (map fst ?hit)" by simp
  also have "\<dots> = card (set (map fst ?hit))" using d by (rule distinct_card [symmetric])
  also have "set (map fst ?hit) = fst ` set ?hit" by simp
  finally show ?thesis unfolding groups_of_scene_keys [OF assms] .
qed

text \<open>
  Claim C7, as amended. In identifier grouping, an identifier that is the empty string or
  missing is ignored and never forms a group; every other identifier, a whitespace-only one
  included, forms a group exactly when the scenes of the list carry it at least twice.
  Identifiers are compared by exact, case-sensitive string equality, with no normalization:
  \<open>(k, g)\<close> is returned if and only if \<open>k\<close> is not empty, \<open>g\<close> holds each scene once per entry of
  its \<^verbatim>\<open>stash_ids\<close> whose identifier equals \<open>k\<close>, in source order, and \<open>g\<close> has at least two
  entries. The keys are distinct, and a scene with \<open>N\<close> distinct non-empty identifiers can
  appear in up to \<open>N\<close> different groups: it is in as many groups as it has distinct
  identifiers that the list carries at least twice.
\<close>

theorem stashid_exact_nonempty_identifiers:
  "[] \<notin> fst ` set (find_duplicates_by_stashid scs) \<and>
   (\<forall>k g. (k, g) \<in> set (find_duplicates_by_stashid scs) \<longleftrightarrow>
      k \<noteq> [] \<and>
      g = concat (map (\<lambda>s. replicate
            (count_list (map (\<lambda>d. map_of d ''stash_id'') (stash_ids s)) (Some k)) s) scs) \<and>
      1 < length g) \<and>
   distinct (map fst (find_duplicates_by_stashid scs)) \<and>
   length (filter (\<lambda>(k, g). s \<in> set g) (find_duplicates_by_stashid scs))
     \<le> card (set (stash_ids_of s)) \<and>
   (s \<in> set scs \<longrightarrow>
      length (filter (\<lambda>(k, g). s \<in> set g) (find_duplicates_by_stashid scs)) =
        card {k \<in> set (stash_ids_of s). 1 < (\<Sum>s'\<leftarrow>scs. count_list (stash_ids_of s') k)}) \<and>
   (s \<in> set scs \<and>
    (\<forall>k \<in> set (stash_ids_of s). 1 < (\<Sum>s'\<leftarrow>scs. count_list (stash_ids_of s') k)) \<longrightarrow>
      length (filter (\<lambda>(k, g). s \<in> set g) (find_duplicates_by_stashid scs)) =
        card (set (stash_ids_of s))) \<and>
   set (stash_ids_of s) =
     {i. i \<noteq> [] \<and> Some i \<in> set (map (\<lambda>d. map_of d ''stash_id'') (stash_ids s))}"
proof -
  have a: "[] \<notin> fst ` set (find_duplicates_by_stashid scs)"
    using stashid_found [of _ _ scs] by fastforce
  have b: "\<forall>k g. (k, g) \<in> set (find_duplicates_by_stashid scs) \<longleftrightarrow>
      k \<noteq> [] \<and>
      g = concat (map (\<lambda>s. replicate
            (count_list (map (\<lambda>d. map_of d ''stash_id'') (stash_ids s)) (Some k)) s) scs) \<and>
      1 < length g"
    using stashid_found_iff by blast
  have c: "set (stash_ids_of s) =
     {i. i \<noteq> [] \<and> Some i \<in> set (map (\<lambda>d. map_of d ''stash_id'') (stash_ids s))}"
  proof -
    have "i \<in> set (stash_ids_of s) \<longleftrightarrow>
          i \<noteq> [] \<and> Some i \<in> set (map (\<lambda>d. map_of d ''stash_id'') (stash_ids s))" for i
      using count_list_0_iff [of "stash_ids_of s" i]
        count_list_0_iff [of "map (\<lambda>d. map_of d ''stash_id'') (stash_ids s)" "Some i"]
      unfolding count_stash_ids_of by (cases "i = []") auto
    then show ?thesis by blast
  qed
  have e: "s \<in> set scs \<longrightarrow>
      length (filter (\<lambda>(k, g). s \<in> set g) (find_duplicates_by_stashid scs)) =
        card {k \<in> set (stash_ids_of s). 1 < (\<Sum>s'\<leftarrow>scs. count_list (stash_ids_of s') k)}"
    using groups_of_scene_count by blast
  have f: "s \<in> set scs \<and>
    (\<forall>k \<in> set (stash_ids_of s). 1 < (\<Sum>s'\<leftarrow>scs. count_list (stash_ids_of s') k)) \<longrightarrow>
      length (filter (\<lambda>(k, g). s \<in> set g) (find_duplicates_by_stashid scs)) =
        card (set (stash_ids_of s))"
  proof (intro impI, elim conjE)
    assume s: "s \<in> set scs"
      and all: "\<forall>k \<in> set (stash_ids_of s). 1 < (\<Sum>s'\<leftarrow>scs. count_list (stash_ids_of s') k)"
    from all have "{k \<in> set (stash_ids_of s). 1 < (\<Sum>s'\<leftarrow>scs. count_list (stash_ids_of s') k)} =
        set (stash_ids_of s)" by blast
    with groups_of_scene_count [OF s] show "length (filter (\<lambda>(k, g). s \<in> set g)
        (find_duplicates_by_stashid scs)) = card (set (stash_ids_of s))" by simp
  qed
  from a b distinct_find_duplicates_by_stashid groups_of_scene_bound e f c show ?thesis
    by (intro conjI)
qed

theorem stashid_exact_nonempty_identifiers_witness:
  "find_duplicates_by_stashid [ex_a, ex_both, ex_untitled, ex_upper] =
     [(''st-99'', [ex_a, ex_both]), (''ST-99'', [ex_both, ex_upper]), (''st-100'', [ex_both, ex_upper])] \<and>
   [] \<notin> fst ` set (find_duplicates_by_stashid [ex_a, ex_both, ex_untitled, ex_upper]) \<and>
   stash_ids_of ex_both = [''st-99'', ''ST-99'', ''st-100''] \<and>
   length (filter (\<lambda>(k, g). ex_both \<in> set g)
     (find_duplicates_by_stashid [ex_a, ex_both, ex_untitled, ex_upper])) = 3 \<and>
   length (filter (\<lambda>(k, g). ex_both \<in> set g)
     (find_duplicates_by_stashid [ex_a, ex_both, ex_untitled, ex_upper]))
     \<le> card (set (stash_ids_of ex_both)) \<and>
   ('' '', [ex_blank1, ex_blank2]) \<in> set (find_duplicates_by_stashid [ex_blank1, ex_blank2])"
proof -
  let ?scs = "[ex_a, ex_both, ex_untitled, ex_upper]"
  have blank: "'' '' \<noteq> [] \<and>
      [ex_blank1, ex_blank2] = concat (map (\<lambda>s. replicate
        (count_list (map (\<lambda>d. map_of d ''stash_id'') (stash_ids s)) (Some '' '')) s)
        [ex_blank1, ex_blank2]) \<and>
      1 < length [ex_blank1, ex_blank2]"
    by (simp add: ex_blank1_def ex_blank2_def ex_scene_def)
  from stashid_exact_nonempty_identifiers [of "[ex_blank1, ex_blank2]" ex_both] blank
  have p: "('' '', [ex_blank1, ex_blank2]) \<in> set (find_duplicates_by_stashid [ex_blank1, ex_blank2])"
    by blast
  have r: "find_duplicates_by_stashid ?scs =
     [(''st-99'', [ex_a, ex_both]), (''ST-99'', [ex_both, ex_upper]), (''st-100'', [ex_both, ex_upper])]"
    by code_simp
  have i: "stash_ids_of ex_both = [''st-99'', ''ST-99'', ''st-100'']"
    by code_simp
  have n: "length (filter (\<lambda>(k, g). ex_both \<in> set g) (find_duplicates_by_stashid ?scs)) = 3"
    unfolding r by simp
  note inst = stashid_exact_nonempty_identifiers [of ?scs ex_both]
  from inst have a: "[] \<notin> fst ` set (find_duplicates_by_stashid ?scs)" by blast
  from inst have b: "length (filter (\<lambda>(k, g). ex_both \<in> set g) (find_duplicates_by_stashid ?scs))
     \<le> card (set (stash_ids_of ex_both))" by blast
  from r i n a b p show ?thesis by (intro conjI)
qed

text \<open>
  Claim C7 as it was stated fails on a blank identifier: the identifier of one space is kept
  by the comprehension, and the two scenes that carry it are returned as a group.
\<close>

theorem blank_identifier_forms_group:
  "stash_ids_of ex_blank1 = ['' ''] \<and> stash_ids_of ex_blank2 = ['' ''] \<and>
   find_duplicates_by_stashid [ex_blank1, ex_blank2] = [('' '', [ex_blank1, ex_blank2])]"
  by code_simp

section \<open>Order of the members, claim C6\<close>

lemma in_source_order_filter: "in_source_order scs (filter P scs)"
proof -
  have "filter P scs = concat (map (\<lambda>s. replicate (if P s then 1 else 0) s) scs)"
    by (induction scs) auto
  then show ?thesis by (simp only: in_source_order_repeats)
qed

lemma sorted_shift_up: "sorted js \<Longrightarrow> sorted (map (\<lambda>j. (off::nat) + j) js)"
  by (induction js) auto

lemma sorted_shift_down: "sorted js \<Longrightarrow> sorted (map (\<lambda>j. j - (off::nat)) js)"
  by (induction js) (auto intro: diff_le_mono)

lemma nth_after_takeWhile: "xs ! (length (takeWhile P xs) + j) = dropWhile P xs ! j"
proof -
  have "(takeWhile P xs @ dropWhile P xs) ! (length (takeWhile P xs) + j) = dropWhile P xs ! j"
    by (rule nth_append_length_plus)
  then show ?thesis by simp
qed

lemma length_takeWhile_dropWhile: "length (takeWhile P xs) + length (dropWhile P xs) = length xs"
proof -
  have "length (takeWhile P xs @ dropWhile P xs) = length (takeWhile P xs) + length (dropWhile P xs)"
    by (rule length_append)
  then show ?thesis by simp
qed

lemma first_hit_le:
  assumes "i < length xs" and "\<not> P (xs ! i)"
  shows "length (takeWhile P xs) \<le> i"
proof (rule ccontr)
  assume "\<not> length (takeWhile P xs) \<le> i"
  then have lt: "i < length (takeWhile P xs)" by simp
  then have "takeWhile P xs ! i \<in> set (takeWhile P xs)" by (rule nth_mem)
  then have "P (takeWhile P xs ! i)" by (rule set_takeWhileD [THEN conjunct2])
  moreover have "takeWhile P xs ! i = xs ! i" using lt by (rule takeWhile_nth)
  ultimately show False using assms(2) by simp
qed

lemma in_source_order_Cons:
  "in_source_order src (x # g) \<longleftrightarrow>
     dropWhile (\<lambda>s. s \<noteq> x) src \<noteq> [] \<and> in_source_order (dropWhile (\<lambda>s. s \<noteq> x) src) g"
  by (cases "dropWhile (\<lambda>s. s \<noteq> x) src") (simp_all del: dropWhile_eq_Nil_conv)

lemma in_source_order_indices:
  "in_source_order src g \<longleftrightarrow>
     (\<exists>is. sorted is \<and> (\<forall>i \<in> set is. i < length src) \<and> g = map ((!) src) is)"
proof (induction g arbitrary: src)
  case Nil
  show ?case by (auto intro: exI [of _ "[]"])
next
  case (Cons x g)
  let ?P = "\<lambda>s. s \<noteq> x"
  let ?off = "length (takeWhile ?P src)"
  let ?rest = "dropWhile ?P src"
  note len = length_takeWhile_dropWhile [of ?P src]
  show ?case
  proof
    assume "in_source_order src (x # g)"
    then have ne: "?rest \<noteq> []" and g: "in_source_order ?rest g"
      unfolding in_source_order_Cons by blast+
    from g Cons.IH [of ?rest] obtain js where
      js: "sorted js" "\<forall>j \<in> set js. j < length ?rest" "g = map ((!) ?rest) js" by blast
    from ne have "\<not> ?P (hd ?rest)" by (rule hd_dropWhile)
    with ne have hd: "?rest ! 0 = x" by (simp add: hd_conv_nth del: dropWhile_eq_Nil_conv)
    let ?is = "?off # map (\<lambda>j. ?off + j) js"
    have "sorted (map (\<lambda>j. ?off + j) js)" using js(1) by (rule sorted_shift_up)
    then have 1: "sorted ?is" by simp
    have pos: "0 < length ?rest" using ne by (simp del: dropWhile_eq_Nil_conv)
    have 2: "\<forall>i \<in> set ?is. i < length src"
    proof
      fix i assume "i \<in> set ?is"
      then consider "i = ?off" | j where "j \<in> set js" "i = ?off + j" by auto
      then show "i < length src"
      proof cases
        case 1
        with pos len show ?thesis by linarith
      next
        case 2
        from 2(1) js(2) have "j < length ?rest" by blast
        with 2(2) len show ?thesis by linarith
      qed
    qed
    have "src ! ?off = x" using nth_after_takeWhile [of src ?P 0] hd by simp
    moreover have "map ((!) src) (map (\<lambda>j. ?off + j) js) = map ((!) ?rest) js"
      by (simp add: nth_after_takeWhile comp_def)
    ultimately have 3: "x # g = map ((!) src) ?is" using js(3) by simp
    from 1 2 3 show "\<exists>is. sorted is \<and> (\<forall>i \<in> set is. i < length src) \<and> x # g = map ((!) src) is"
      by (intro exI [of _ ?is] conjI)
  next
    assume "\<exists>is. sorted is \<and> (\<forall>i \<in> set is. i < length src) \<and> x # g = map ((!) src) is"
    then obtain ixs where ixs: "sorted ixs" "\<forall>i \<in> set ixs. i < length src" "x # g = map ((!) src) ixs"
      by (elim exE conjE)
    from ixs(3) obtain i js where split: "ixs = i # js" by (cases ixs) auto
    from ixs split have
      srt: "sorted js" and low: "\<forall>j \<in> set js. i \<le> j" and i: "i < length src"
      and bound: "\<forall>j \<in> set js. j < length src" and x: "x = src ! i" and g: "g = map ((!) src) js"
      by auto
    have off: "?off \<le> i" using i x by (intro first_hit_le) simp_all
    then have "0 < length ?rest" using i len by linarith
    then have ne: "?rest \<noteq> []" by (simp del: dropWhile_eq_Nil_conv)
    let ?js = "map (\<lambda>j. j - ?off) js"
    have 1: "sorted ?js" using srt by (rule sorted_shift_down)
    have 2: "\<forall>j \<in> set ?js. j < length ?rest"
    proof
      fix j assume "j \<in> set ?js"
      then obtain j' where j': "j' \<in> set js" "j = j' - ?off" by auto
      from j'(1) low bound have "i \<le> j'" "j' < length src" by blast+
      with off len show "j < length ?rest" unfolding j'(2) by linarith
    qed
    have 3: "g = map ((!) ?rest) ?js"
    proof -
      have "src ! j = ?rest ! (j - ?off)" if "j \<in> set js" for j
      proof -
        from that low off have "?off \<le> j" by (meson le_trans)
        then have "?off + (j - ?off) = j" by (rule le_add_diff_inverse)
        then show ?thesis using nth_after_takeWhile [of src ?P "j - ?off"] by simp
      qed
      then show ?thesis unfolding g by simp
    qed
    from 1 2 3 have "in_source_order ?rest g" using Cons.IH [of ?rest] by blast
    with ne show "in_source_order src (x # g)" unfolding in_source_order_Cons by blast
  qed
qed

text \<open>
  Claim C6, as amended. For the stash-id, oshash and phash strategies, every returned group
  lists its members in the order of the source list. For the name strategy, every bucket of
  an exact title lists its members in source order, and a returned group is the bucket of
  its seed title followed by the buckets of the titles merged into it, these taken in the
  order in which the titles were first met. (A merged group as a whole need not follow the
  source order.)
\<close>

theorem groups_follow_source_order:
  "(\<forall>(k, g) \<in> set (find_duplicates_by_stashid scs). in_source_order scs g) \<and>
   (\<forall>(k, g) \<in> set (find_duplicates_by_oshash scs). in_source_order scs g) \<and>
   (\<forall>(k, g) \<in> set (find_duplicates_by_phash scs). in_source_order scs g) \<and>
   (\<forall>k. in_source_order scs (dd_get (title_groups lower strip scs) k)) \<and>
   (\<forall>(k, g) \<in> set (find_duplicates_by_name lower strip ratio scs).
      \<exists>ms. subseq (k # ms) (map fst (title_groups lower strip scs)) \<and>
           g = concat (map (dd_get (title_groups lower strip scs)) (k # ms))) \<and>
   map fst (title_groups lower strip scs) =
     rev (remdups (rev (map (\<lambda>s. strip (lower (title s)))
                          (filter (\<lambda>s. title s \<noteq> []) scs))))"
proof -
  have grouped: "in_source_order scs g"
    if "(k, g) \<in> set (only_duplicates (dd_extend [] (keyed_entries f scs)))"
    for k g and f :: "scene \<Rightarrow> string list"
    using that unfolding in_grouped_iff by (simp only: in_source_order_repeats)
  have a: "\<forall>(k, g) \<in> set (find_duplicates_by_stashid scs). in_source_order scs g"
    unfolding find_duplicates_by_stashid_def stashid_groups_entries using grouped by fastforce
  have b: "\<forall>(k, g) \<in> set (find_duplicates_by_oshash scs). in_source_order scs g"
    unfolding find_duplicates_by_oshash_def fingerprint_groups_entries using grouped by fastforce
  have c: "\<forall>(k, g) \<in> set (find_duplicates_by_phash scs). in_source_order scs g"
    unfolding find_duplicates_by_phash_def fingerprint_groups_entries using grouped by fastforce
  have d: "\<forall>k. in_source_order scs (dd_get (title_groups lower strip scs) k)"
    unfolding dd_get_title_groups by (simp add: in_source_order_filter)
  have e: "\<forall>(k, g) \<in> set (find_duplicates_by_name lower strip ratio scs).
      \<exists>ms. subseq (k # ms) (map fst (title_groups lower strip scs)) \<and>
           g = concat (map (dd_get (title_groups lower strip scs)) (k # ms))"
    using find_duplicates_by_name_groups [of _ _ lower strip ratio scs] by blast
  from a b c d e title_groups_key_order show ?thesis by (intro conjI)
qed

theorem groups_follow_source_order_witness:
  "find_duplicates_by_stashid [ex_a, ex_b, ex_c] = [(''st-99'', [ex_a, ex_b])] \<and>
   in_source_order [ex_a, ex_b, ex_c] [ex_a, ex_b] \<and>
   dd_get (title_groups ascii_lower ascii_strip [ex_a, ex_b, ex_c]) ''summer vacation 2020'' = [ex_a, ex_c] \<and>
   in_source_order [ex_a, ex_b, ex_c] [ex_a, ex_c]"
proof -
  let ?scs = "[ex_a, ex_b, ex_c]"
  have s: "find_duplicates_by_stashid ?scs = [(''st-99'', [ex_a, ex_b])]"
    by code_simp
  have tg: "title_groups ascii_lower ascii_strip ?scs =
      [(''summer vacation 2020'', [ex_a, ex_c]), (''summer vacation 2021'', [ex_b])]"
    by code_simp
  have t: "dd_get (title_groups ascii_lower ascii_strip ?scs) ''summer vacation 2020'' = [ex_a, ex_c]"
    unfolding tg by (simp add: dd_get_def)
  note inst = groups_follow_source_order [of ?scs ascii_lower ascii_strip indel_ratio]
  from inst have "\<forall>(k, g) \<in> set (find_duplicates_by_stashid ?scs). in_source_order ?scs g"
    by blast
  then have a: "in_source_order ?scs [ex_a, ex_b]" unfolding s by simp
  from inst have "in_source_order ?scs (dd_get (title_groups ascii_lower ascii_strip ?scs) ''summer vacation 2020'')"
    by blast
  then have b: "in_source_order ?scs [ex_a, ex_c]" unfolding t .
  from s a t b show ?thesis by (intro conjI)
qed

text \<open>
  Claim C6 as it was stated fails on a merged group: the third scene shares the exact bucket
  of the first, the second is merged after that bucket, and the group lists the third scene
  before the second.
\<close>

theorem merged_group_out_of_source_order:
  "find_duplicates_by_name ascii_lower ascii_strip indel_ratio [ex_a, ex_b, ex_c] =
     [(''summer vacation 2020'', [ex_a, ex_c, ex_b])] \<and>
   \<not> in_source_order [ex_a, ex_b, ex_c] [ex_a, ex_c, ex_b]"
proof -
  have tg: "title_groups ascii_lower ascii_strip [ex_a, ex_b, ex_c] =
      [(''summer vacation 2020'', [ex_a, ex_c]), (''summer vacation 2021'', [ex_b])]"
    by code_simp
  have r: "indel_ratio ''summer vacation 2020'' ''summer vacation 2021'' = 95"
    by (simp add: indel_ratio_def)
  have n: "find_duplicates_by_name ascii_lower ascii_strip indel_ratio [ex_a, ex_b, ex_c] =
      [(''summer vacation 2020'', [ex_a, ex_c, ex_b])]"
    by (simp add: find_duplicates_by_name_def tg r dd_get_def)
  have o: "\<not> in_source_order [ex_a, ex_b, ex_c] [ex_a, ex_c, ex_b]"
    by (simp add: ex_a_def ex_b_def ex_c_def ex_scene_def)
  from n o show ?thesis by (intro conjI)
qed

end
